theory Spec2Isabelle
  imports Main "HOL-Library.Monad_Syntax"
begin

section \<open>Text and the string helpers of the Go standard library\<close>

text \<open>
  A Go \<^verbatim>\<open>string\<close> is modelled as a \<^typ>\<open>string\<close>, one \<^typ>\<open>char\<close> for each byte.
  On ASCII text a byte, a rune and a character coincide. On other text the patterns are
  matched byte by byte, where the package \<^verbatim>\<open>regexp\<close> compares runes: the case folding
  of the flag \<^verbatim>\<open>(?i)\<close> beyond the ASCII letters is not part of the model.
\<close>

definition nl :: char where
  "nl = CHR 0x0A"

definition byte :: "char \<Rightarrow> nat" where
  "byte c = of_char c"

text \<open>\<^verbatim>\<open>strings.HasPrefix\<close>, \<^verbatim>\<open>strings.HasSuffix\<close>, \<^verbatim>\<open>strings.TrimPrefix\<close>,
  \<^verbatim>\<open>strings.TrimSuffix\<close>.\<close>

fun HasPrefix :: "string \<Rightarrow> string \<Rightarrow> bool" where
  "HasPrefix s [] = True"
| "HasPrefix [] (p # ps) = False"
| "HasPrefix (x # xs) (p # ps) = (x = p \<and> HasPrefix xs ps)"

definition HasSuffix :: "string \<Rightarrow> string \<Rightarrow> bool" where
  "HasSuffix s suf = HasPrefix (rev s) (rev suf)"

definition TrimPrefix :: "string \<Rightarrow> string \<Rightarrow> string" where
  "TrimPrefix s p = (if HasPrefix s p then drop (length p) s else s)"

definition TrimSuffix :: "string \<Rightarrow> string \<Rightarrow> string" where
  "TrimSuffix s suf = (if HasSuffix s suf then take (length s - length suf) s else s)"

text \<open>\<^verbatim>\<open>strings.Split(s, "\n")\<close> and \<^verbatim>\<open>strings.Join(lines, "\n")\<close>.\<close>

fun Split :: "string \<Rightarrow> string list" where
  "Split [] = [[]]"
| "Split (c # cs) =
     (if c = nl then [] # Split cs
      else (case Split cs of [] \<Rightarrow> [[c]] | l # ls \<Rightarrow> (c # l) # ls))"

fun Join :: "string list \<Rightarrow> string" where
  "Join [] = []"
| "Join [l] = l"
| "Join (l # m # ls) = l @ nl # Join (m # ls)"

text \<open>\<^verbatim>\<open>strings.SplitN(s, "/", 3)\<close>: at most three parts, the last one unsplit.\<close>

fun SplitN :: "string \<Rightarrow> nat \<Rightarrow> string list" where
  "SplitN s 0 = []"
| "SplitN s (Suc 0) = [s]"
| "SplitN [] (Suc (Suc n)) = [[]]"
| "SplitN (c # cs) (Suc (Suc n)) =
     (if c = CHR ''/'' then [] # SplitN cs (Suc n)
      else (case SplitN cs (Suc (Suc n)) of [] \<Rightarrow> [[c]] | l # ls \<Rightarrow> (c # l) # ls))"

text \<open>\<^verbatim>\<open>strings.TrimRight(s, cutset)\<close> and \<^verbatim>\<open>strings.TrimSpace\<close> (ASCII white space:
  tab, line feed, vertical tab, form feed, carriage return, space).\<close>

definition TrimRight :: "string \<Rightarrow> string \<Rightarrow> string" where
  "TrimRight s cutset = rev (dropWhile (\<lambda>c. c \<in> set cutset) (rev s))"

definition isSpace :: "char \<Rightarrow> bool" where
  "isSpace c = (c = CHR 0x09 \<or> c = CHR 0x0A \<or> c = CHR 0x0B \<or> c = CHR 0x0C \<or> c = CHR 0x0D
     \<or> c = CHR '' '')"

definition TrimSpace :: "string \<Rightarrow> string" where
  "TrimSpace s = rev (dropWhile isSpace (rev (dropWhile isSpace s)))"

text \<open>
  \<^verbatim>\<open>utf8.ValidString\<close>: the text is a sequence of well-formed UTF-8 encodings (one to
  four bytes each, no overlong form, no surrogate, nothing above \<^verbatim>\<open>U+10FFFF\<close>).
\<close>

definition cont :: "char \<Rightarrow> bool" where
  "cont b = (0x80 \<le> byte b \<and> byte b \<le> 0xBF)"

fun validUTF8 :: "string \<Rightarrow> bool" where
  "validUTF8 [] = True"
| "validUTF8 (a # s) =
     (if byte a < 0x80 then validUTF8 s
      else if 0xC2 \<le> byte a \<and> byte a \<le> 0xDF
      then (case s of b # s' \<Rightarrow> cont b \<and> validUTF8 s' | _ \<Rightarrow> False)
      else if 0xE0 \<le> byte a \<and> byte a \<le> 0xEF
      then (case s of b # c # s' \<Rightarrow>
              (if byte a = 0xE0 then 0xA0 \<le> byte b \<and> byte b \<le> 0xBF
               else if byte a = 0xED then 0x80 \<le> byte b \<and> byte b \<le> 0x9F
               else cont b) \<and> cont c \<and> validUTF8 s'
            | _ \<Rightarrow> False)
      else if 0xF0 \<le> byte a \<and> byte a \<le> 0xF4
      then (case s of b # c # d # s' \<Rightarrow>
              (if byte a = 0xF0 then 0x90 \<le> byte b \<and> byte b \<le> 0xBF
               else if byte a = 0xF4 then 0x80 \<le> byte b \<and> byte b \<le> 0x8F
               else cont b) \<and> cont c \<and> cont d \<and> validUTF8 s'
            | _ \<Rightarrow> False)
      else False)"

text \<open>A slice expression \<^verbatim>\<open>s[a:b]\<close> whose bounds are in range.\<close>

definition slice :: "'a list \<Rightarrow> int \<Rightarrow> int \<Rightarrow> 'a list" where
  "slice s a b = take (nat (b - a)) (drop (nat a) s)"

section \<open>Regular expressions\<close>

text \<open>
  The package \<^verbatim>\<open>regexp\<close> is modelled for the constructs that the patterns of the
  repository use: line and text anchors, character classes, greedy counted repetition of
  a class, greedy optional groups, capturing groups and concatenation. A class is a list
  of inclusive ranges, possibly negated.
\<close>

datatype cclass = Class bool "(char \<times> char) list"

fun in_class :: "cclass \<Rightarrow> char \<Rightarrow> bool" where
  "in_class (Class neg rs) c = (neg \<noteq> list_ex (\<lambda>r. byte (fst r) \<le> byte c \<and> byte c \<le> byte (snd r)) rs)"

datatype regex =
    Eps
  | Bol
  | Bot
  | Eot
  | One cclass
  | Rep cclass nat "nat option"
  | Opt regex
  | Cap nat regex
  | Seq regex regex

text \<open>A cursor is a position in the text, the character before it and the text after it.\<close>

type_synonym cursor = "nat \<times> char option \<times> string"

type_synonym mstate = "cursor \<times> int list"

fun cursor_at :: "string \<Rightarrow> nat \<Rightarrow> cursor" where
  "cursor_at s p = (p, (if p = 0 then None else Some (s ! (p - 1))), drop p s)"

fun reps :: "cclass \<Rightarrow> nat \<Rightarrow> nat option \<Rightarrow> nat \<Rightarrow> nat \<Rightarrow> char option \<Rightarrow> string \<Rightarrow> cursor list" where
  "reps c lo hi k p pv [] = (if lo \<le> k then [(p, pv, [])] else [])"
| "reps c lo hi k p pv (x # xs) =
     (if in_class c x \<and> (case hi of None \<Rightarrow> True | Some h \<Rightarrow> k < h)
      then reps c lo hi (Suc k) (Suc p) (Some x) xs else [])
     @ (if lo \<le> k then [(p, pv, x # xs)] else [])"

text \<open>
  \<open>run r st\<close> lists every way in which \<open>r\<close> matches at the cursor of \<open>st\<close>, in the order
  of preference of a backtracking matcher (leftmost-first semantics): a greedy repetition
  prefers more iterations, an optional group prefers to take part.
\<close>

fun run :: "regex \<Rightarrow> mstate \<Rightarrow> mstate list" where
  "run Eps st = [st]"
| "run Bol ((p, pv, r), cs) = (if pv = None \<or> pv = Some nl then [((p, pv, r), cs)] else [])"
| "run Bot ((p, pv, r), cs) = (if p = 0 then [((p, pv, r), cs)] else [])"
| "run Eot ((p, pv, r), cs) = (if r = [] then [((p, pv, r), cs)] else [])"
| "run (One c) ((p, pv, r), cs) =
     (case r of [] \<Rightarrow> [] | x # xs \<Rightarrow> if in_class c x then [((Suc p, Some x, xs), cs)] else [])"
| "run (Rep c lo hi) ((p, pv, r), cs) = map (\<lambda>cur. (cur, cs)) (reps c lo hi 0 p pv r)"
| "run (Opt a) st = run a st @ [st]"
| "run (Cap n a) ((p, pv, r), cs) =
     map (\<lambda>((p', pv', r'), cs'). ((p', pv', r'), cs'[2 * n := int p, 2 * n + 1 := int p']))
       (run a ((p, pv, r), cs))"
| "run (Seq a b) st = concat (map (run b) (run a st))"

fun ncap :: "regex \<Rightarrow> nat" where
  "ncap (Opt a) = ncap a"
| "ncap (Cap n a) = max n (ncap a)"
| "ncap (Seq a b) = max (ncap a) (ncap b)"
| "ncap _ = 0"

text \<open>
  \<open>execute r n p pv rest\<close> is the leftmost match that starts at the cursor or later, as
  the array of group bounds that \<^verbatim>\<open>FindStringSubmatchIndex\<close> returns (\<open>-1\<close> for a group
  that took no part).
\<close>

fun execute :: "regex \<Rightarrow> nat \<Rightarrow> nat \<Rightarrow> char option \<Rightarrow> string \<Rightarrow> int list option" where
  "execute r n p pv rest =
     (case run r ((p, pv, rest), replicate (2 * (n + 1)) (- 1)) of
        ((p', _, _), cs) # _ \<Rightarrow> Some (cs[0 := int p, 1 := int p'])
      | [] \<Rightarrow> (case rest of [] \<Rightarrow> None | x # xs \<Rightarrow> execute r n (Suc p) (Some x) xs))"

definition doExecute :: "regex \<Rightarrow> string \<Rightarrow> nat \<Rightarrow> int list option" where
  "doExecute r s pos = (case cursor_at s pos of (p, pv, rest) \<Rightarrow> execute r (ncap r) p pv rest)"

definition MatchString :: "regex \<Rightarrow> string \<Rightarrow> bool" where
  "MatchString r s = (doExecute r s 0 \<noteq> None)"

text \<open>A match never starts before the cursor and never ends before it starts; the array
  of bounds has two entries for each group and two for the whole match.\<close>

lemma reps_pos:
  "(p', pv', r') \<in> set (reps c lo hi k p pv r) \<Longrightarrow> p \<le> p' \<and> p' + length r' = p + length r"
  by (induction r arbitrary: k p pv) (fastforce split: if_splits)+

lemma run_pos:
  "((p', pv', r'), cs') \<in> set (run a ((p, pv, r), cs)) \<Longrightarrow>
     p \<le> p' \<and> p' + length r' = p + length r \<and> length cs' = length cs"
proof (induction a arbitrary: p pv r cs p' pv' r' cs')
  case (Rep c lo hi)
  then show ?case by (auto dest: reps_pos)
next
  case (Seq a b)
  from Seq.prems obtain p1 pv1 r1 cs1 where
    1: "((p1, pv1, r1), cs1) \<in> set (run a ((p, pv, r), cs))" and
    2: "((p', pv', r'), cs') \<in> set (run b ((p1, pv1, r1), cs1))"
    by auto
  from Seq.IH(1)[OF 1] Seq.IH(2)[OF 2] show ?case by simp
next
  case (Cap n a)
  then show ?case by fastforce
next
  case (Opt a)
  then show ?case by auto
qed (auto split: if_splits list.splits)

lemma execute_bounds:
  "execute r n p pv rest = Some m \<Longrightarrow>
     int p \<le> m ! 0 \<and> m ! 0 \<le> m ! 1 \<and> m ! 1 \<le> int (p + length rest) \<and> length m = 2 * (n + 1)"
proof (induction r n p pv rest rule: execute.induct)
  case (1 r n p pv rest)
  show ?case
  proof (cases "run r ((p, pv, rest), replicate (2 * (n + 1)) (- 1))")
    case Nil
    with "1.prems" obtain x xs where rest: "rest = x # xs"
      and e: "execute r n (Suc p) (Some x) xs = Some m"
      by (auto split: list.splits)
    from "1.IH"[OF Nil rest e] rest show ?thesis by simp
  next
    case (Cons st sts)
    obtain p' pv' r' cs' where st: "st = ((p', pv', r'), cs')" by (metis prod.exhaust)
    have "((p', pv', r'), cs') \<in> set (run r ((p, pv, rest), replicate (2 * (n + 1)) (- 1)))"
      using Cons st by simp
    from run_pos[OF this] Cons st "1.prems" show ?thesis by auto
  qed
qed

lemma doExecute_bounds:
  "doExecute r s pos = Some m \<Longrightarrow> pos \<le> length s \<Longrightarrow>
     int pos \<le> m ! 0 \<and> m ! 0 \<le> m ! 1 \<and> m ! 1 \<le> int (length s) \<and> length m = 2 * (ncap r + 1)"
  using execute_bounds[of r "ncap r" pos _ "drop pos s" m] by (simp add: doExecute_def)

text \<open>
  The loop of \<^verbatim>\<open>Regexp.allMatches\<close> behind every \<^verbatim>\<open>FindAll...\<close> method: the search
  resumes at the end of the previous match; an empty match at the search position moves
  the position one character on, and is dropped when it abuts the previous match. The
  limit \<open>n\<close> of the loop is \<open>len(s) + 1\<close> for the argument \<open>-1\<close> and is never reached.
\<close>

function allMatches :: "regex \<Rightarrow> string \<Rightarrow> nat \<Rightarrow> int \<Rightarrow> int list list" where
  "allMatches r s pos prevMatchEnd =
     (if pos \<le> length s then
        (case doExecute r s pos of
           None \<Rightarrow> []
         | Some m \<Rightarrow>
             if m ! 1 = int pos
             then (if m ! 0 = prevMatchEnd then [] else [m]) @ allMatches r s (pos + 1) (m ! 1)
             else m # allMatches r s (nat (m ! 1)) (m ! 1))
      else [])"
  by pat_completeness auto
termination
proof (relation "measure (\<lambda>(r, s, pos, prevEnd). length s + 1 - pos)")
  fix r :: regex and s :: string and pos :: nat and prevMatchEnd :: int and m :: "int list"
  assume le: "pos \<le> length s" and ex: "doExecute r s pos = Some m" and ne: "m ! 1 \<noteq> int pos"
  from doExecute_bounds[OF ex le] ne have "pos < nat (m ! 1)" by linarith
  with le show "((r, s, nat (m ! 1), m ! 1), (r, s, pos, prevMatchEnd))
      \<in> measure (\<lambda>(r, s, pos, prevEnd). length s + 1 - pos)"
    by simp
qed auto

declare allMatches.simps [simp del]

definition FindAllStringSubmatchIndex :: "regex \<Rightarrow> string \<Rightarrow> int list list" where
  "FindAllStringSubmatchIndex r s = allMatches r s 0 (- 1)"

definition FindAllStringIndex :: "regex \<Rightarrow> string \<Rightarrow> int list list" where
  "FindAllStringIndex r s = map (take 2) (allMatches r s 0 (- 1))"

subsection \<open>Pattern syntax\<close>

definition cat :: "regex list \<Rightarrow> regex" where
  "cat rs = foldr Seq rs Eps"

definition chr :: "char \<Rightarrow> regex" where
  "chr c = One (Class False [(c, c)])"

text \<open>A literal, as \<^verbatim>\<open>regexp.QuoteMeta\<close> makes one of any text.\<close>

definition lit :: "string \<Rightarrow> regex" where
  "lit w = cat (map chr w)"

text \<open>A literal under the flag \<^verbatim>\<open>(?i)\<close>: each letter matches in both cases.\<close>

definition toLower :: "char \<Rightarrow> char" where
  "toLower c = (if 65 \<le> byte c \<and> byte c \<le> 90 then char_of (byte c + 32) else c)"

definition toUpper :: "char \<Rightarrow> char" where
  "toUpper c = (if 97 \<le> byte c \<and> byte c \<le> 122 then char_of (byte c - 32) else c)"

definition chrI :: "char \<Rightarrow> regex" where
  "chrI c = One (Class False [(toUpper c, toUpper c), (toLower c, toLower c)])"

definition litI :: "string \<Rightarrow> regex" where
  "litI w = cat (map chrI w)"

text \<open>The classes \<^verbatim>\<open>\w\<close>, \<^verbatim>\<open>\d\<close>, \<^verbatim>\<open>\s\<close>, \<^verbatim>\<open>[\w.+-]\<close>, \<^verbatim>\<open>[a-zA-Z0-9]\<close> and
  \<^verbatim>\<open>[^\]]\<close>.\<close>

definition digit :: cclass where
  "digit = Class False [(CHR ''0'', CHR ''9'')]"

definition space :: cclass where
  "space = Class False [(CHR 0x09, CHR 0x0A), (CHR 0x0C, CHR 0x0D), (CHR '' '', CHR '' '')]"

definition tokch :: cclass where
  "tokch = Class False [(CHR ''0'', CHR ''9''), (CHR ''A'', CHR ''Z''), (CHR ''_'', CHR ''_''),
     (CHR ''a'', CHR ''z''), (CHR ''.'', CHR ''.''), (CHR ''+'', CHR ''+''), (CHR ''-'', CHR ''-'')]"

definition alnum :: cclass where
  "alnum = Class False [(CHR ''a'', CHR ''z''), (CHR ''A'', CHR ''Z''), (CHR ''0'', CHR ''9'')]"

definition notrbracket :: cclass where
  "notrbracket = Class True [(CHR '']'', CHR '']'')]"

text \<open>\<^verbatim>\<open>\d{4}-\d{2}-\d{2}\<close>\<close>

definition isodate :: regex where
  "isodate = cat [Rep digit 4 (Some 4), chr CHR ''-'', Rep digit 2 (Some 2), chr CHR ''-'',
     Rep digit 2 (Some 2)]"

text \<open>\<^verbatim>\<open>[\w.+-]+\.[\w.+-]+[a-zA-Z0-9]\<close>\<close>

definition vtoken :: regex where
  "vtoken = cat [Rep tokch 1 None, chr CHR ''.'', Rep tokch 1 None, One alnum]"

section \<open>The compiled patterns of the three formats\<close>

text \<open>\<^verbatim>\<open>(?m)^##\s+\[([^\]]+)\](?:\s+-\s+(\d{4}-\d{2}-\d{2}))?\<close>\<close>

definition keepAChangelog :: regex where
  "keepAChangelog = cat [Bol, chr CHR ''#'', chr CHR ''#'', Rep space 1 None, chr CHR ''['',
     Cap 1 (Rep notrbracket 1 None), chr CHR '']'',
     Opt (cat [Rep space 1 None, chr CHR ''-'', Rep space 1 None, Cap 2 isodate])]"

text \<open>\<^verbatim>\<open>(?m)^#{1,3}\s+v?([\w.+-]+\.[\w.+-]+[a-zA-Z0-9])(?:\s+\((\d{4}-\d{2}-\d{2})\))?\<close>\<close>

definition markdownHeader :: regex where
  "markdownHeader = cat [Bol, Rep (Class False [(CHR ''#'', CHR ''#'')]) 1 (Some 3),
     Rep space 1 None, Opt (chr CHR ''v''), Cap 1 vtoken,
     Opt (cat [Rep space 1 None, chr CHR ''('', Cap 2 isodate, chr CHR '')''])]"

text \<open>\<^verbatim>\<open>(?m)^([\w.+-]+\.[\w.+-]+[a-zA-Z0-9])\n[=-]+\<close>\<close>

definition underlineHeader :: regex where
  "underlineHeader = cat [Bol, Cap 1 vtoken, chr nl,
     Rep (Class False [(CHR ''='', CHR ''=''), (CHR ''-'', CHR ''-'')]) 1 None]"

section \<open>The parser\<close>

text \<open>
  A run-time panic of the Go program (an index or the bounds of a slice expression out of
  range) is the value \<open>None\<close> of a function that returns an option.
\<close>

definition index :: "'a list \<Rightarrow> nat \<Rightarrow> 'a option" where
  "index xs i = (if i < length xs then Some (xs ! i) else None)"

definition substr :: "'a list \<Rightarrow> int \<Rightarrow> int \<Rightarrow> 'a list option" where
  "substr s a b = (if 0 \<le> a \<and> a \<le> b \<and> b \<le> int (length s) then Some (slice s a b) else None)"


text \<open>A \<^verbatim>\<open>time.Time\<close> that \<^verbatim>\<open>time.Parse("2006-01-02", _)\<close> returns: a calendar day.\<close>

record Time =
  year :: nat
  month :: nat
  day :: nat

record Entry =
  Date :: "Time option"
  Content :: string

record versionEntry =
  version :: string
  entry :: Entry

record Parser =
  content :: string
  pattern :: regex
  matchGroup :: nat
  entries :: "versionEntry list"
  parsed :: bool

subsection \<open>Dates\<close>

definition isDigit :: "char \<Rightarrow> bool" where
  "isDigit c = (byte CHR ''0'' \<le> byte c \<and> byte c \<le> byte CHR ''9'')"

definition atoi :: "string \<Rightarrow> nat" where
  "atoi ds = foldl (\<lambda>n c. 10 * n + (byte c - byte CHR ''0'')) 0 ds"

definition isLeap :: "nat \<Rightarrow> bool" where
  "isLeap y = (y mod 4 = 0 \<and> (y mod 100 \<noteq> 0 \<or> y mod 400 = 0))"

definition daysIn :: "nat \<Rightarrow> nat \<Rightarrow> nat" where
  "daysIn m y = (if m = 2 then (if isLeap y then 29 else 28)
     else if m = 4 \<or> m = 6 \<or> m = 9 \<or> m = 11 then 30 else 31)"

text \<open>\<^verbatim>\<open>time.Parse("2006-01-02", s)\<close>: four digits, a dash, two digits, a dash, two
  digits and nothing else; the month in 1..12 and the day within the month. \<open>None\<close> is the
  error return.\<close>

definition timeParse :: "string \<Rightarrow> Time option" where
  "timeParse s =
     (if length s = 10 \<and> list_all isDigit (take 4 s) \<and> s ! 4 = CHR ''-''
         \<and> list_all isDigit (take 2 (drop 5 s)) \<and> s ! 7 = CHR ''-''
         \<and> list_all isDigit (drop 8 s)
      then (let y = atoi (take 4 s); m = atoi (take 2 (drop 5 s)); d = atoi (drop 8 s)
            in if 1 \<le> m \<and> m \<le> 12 \<and> 1 \<le> d \<and> d \<le> daysIn m y
               then Some \<lparr>year = y, month = m, day = d\<rparr> else None)
      else None)"

subsection \<open>Format detection and construction\<close>

text \<open>The method \<^verbatim>\<open>detectFormat\<close> reads only the content of its parser.\<close>

definition detectFormat :: "string \<Rightarrow> regex" where
  "detectFormat c =
     (if MatchString keepAChangelog c then keepAChangelog
      else if MatchString underlineHeader c then underlineHeader
      else markdownHeader)"

definition Parse :: "string \<Rightarrow> Parser" where
  "Parse c = \<lparr>content = c, pattern = detectFormat c, matchGroup = 1, entries = [], parsed = False\<rparr>"


subsection \<open>Segmentation\<close>

definition extractGroup :: "Parser \<Rightarrow> int list \<Rightarrow> nat \<Rightarrow> string option" where
  "extractGroup p match grp = do {
     start \<leftarrow> index match (grp * 2);
     end \<leftarrow> index match (grp * 2 + 1);
     if start < 0 then Some [] else substr (content p) start end
   }"

text \<open>The outer option is the panic, the inner one the \<^verbatim>\<open>nil\<close> date.\<close>

definition extractDate :: "Parser \<Rightarrow> int list \<Rightarrow> Time option option" where
  "extractDate p match =
     (let grp = matchGroup p + 1 in
      if grp * 2 + 1 \<ge> length match then Some None
      else do {
        start \<leftarrow> index match (grp * 2);
        end \<leftarrow> index match (grp * 2 + 1);
        if start < 0 then Some None
        else do {
          dateStr \<leftarrow> substr (content p) start end;
          Some (timeParse dateStr)
        }
      })"

text \<open>The loop of \<^verbatim>\<open>doParse\<close> over the matches that are left; the next match, if any,
  bounds the content of this one.\<close>

fun doParse_loop :: "Parser \<Rightarrow> int list list \<Rightarrow> Parser option" where
  "doParse_loop p [] = Some p"
| "doParse_loop p (match # matches) = do {
     ver \<leftarrow> extractGroup p match (matchGroup p);
     date \<leftarrow> extractDate p match;
     headerEnd \<leftarrow> index match 1;
     contentEnd \<leftarrow> (case matches of [] \<Rightarrow> Some (int (length (content p)))
                   | nxt # _ \<Rightarrow> index nxt 0);
     body \<leftarrow> substr (content p) headerEnd contentEnd;
     doParse_loop
       (p\<lparr>entries := entries p @
            [\<lparr>version = ver, entry = \<lparr>Date = date, Content = TrimSpace body\<rparr>\<rparr>]\<rparr>)
       matches
   }"

definition doParse :: "Parser \<Rightarrow> Parser option" where
  "doParse p =
     (if content p = [] then Some p
      else (let matches = FindAllStringSubmatchIndex (pattern p) (content p) in
            if matches = [] then Some p else doParse_loop p matches))"

definition ensureParsed :: "Parser \<Rightarrow> Parser option" where
  "ensureParsed p = (if parsed p then Some p else doParse (p\<lparr>parsed := True\<rparr>))"

subsection \<open>Accessors\<close>

text \<open>Each accessor returns its result and the parser, whose cache it may have filled.\<close>

definition Versions :: "Parser \<Rightarrow> (string list \<times> Parser) option" where
  "Versions p = do { p' \<leftarrow> ensureParsed p; Some (map version (entries p'), p') }"

fun Entry_loop :: "versionEntry list \<Rightarrow> string \<Rightarrow> Entry \<times> bool" where
  "Entry_loop [] v = (\<lparr>Date = None, Content = []\<rparr>, False)"
| "Entry_loop (ve # ves) v = (if version ve = v then (entry ve, True) else Entry_loop ves v)"

definition Entry :: "Parser \<Rightarrow> string \<Rightarrow> ((Entry \<times> bool) \<times> Parser) option" where
  "Entry p v = do { p' \<leftarrow> ensureParsed p; Some (Entry_loop (entries p') v, p') }"

fun Entries_loop :: "(string \<rightharpoonup> Entry) \<Rightarrow> versionEntry list \<Rightarrow> (string \<rightharpoonup> Entry)" where
  "Entries_loop m [] = m"
| "Entries_loop m (ve # ves) = Entries_loop (m(version ve \<mapsto> entry ve)) ves"

definition Entries :: "Parser \<Rightarrow> ((string \<rightharpoonup> Entry) \<times> Parser) option" where
  "Entries p = do { p' \<leftarrow> ensureParsed p; Some (Entries_loop Map.empty (entries p'), p') }"

section \<open>Locating a version\<close>

definition isWordChar :: "char \<Rightarrow> bool" where
  "isWordChar b = ((byte CHR ''a'' \<le> byte b \<and> byte b \<le> byte CHR ''z'')
     \<or> (byte CHR ''A'' \<le> byte b \<and> byte b \<le> byte CHR ''Z'')
     \<or> (byte CHR ''0'' \<le> byte b \<and> byte b \<le> byte CHR ''9'') \<or> b = CHR ''_'')"

text \<open>The loop of \<^verbatim>\<open>containsVersion\<close> over the occurrences that \<^verbatim>\<open>FindAllStringIndex\<close>
  returned.\<close>

fun containsVersion_loop :: "string \<Rightarrow> int list list \<Rightarrow> bool" where
  "containsVersion_loop line [] = False"
| "containsVersion_loop line (loc # locs) =
     (if loc ! 0 > 0 \<and> (let prev = line ! nat (loc ! 0 - 1) in
           prev = CHR ''.'' \<or> (isWordChar prev \<and> prev \<noteq> CHR ''v'' \<and> prev \<noteq> CHR ''V''))
      then containsVersion_loop line locs
      else if loc ! 1 < int (length line) \<and> (let next = line ! nat (loc ! 1) in
           next = CHR ''.'' \<or> next = CHR ''-'' \<or> isWordChar next)
      then containsVersion_loop line locs
      else True)"

definition containsVersion :: "string \<Rightarrow> regex \<Rightarrow> bool" where
  "containsVersion line versionRe = containsVersion_loop line (FindAllStringIndex versionRe line)"

text \<open>The patterns that \<^verbatim>\<open>LineForVersion\<close> compiles from the quoted version:
  \<^verbatim>\<open>escaped + `\.\.`\<close>, \<^verbatim>\<open>`^v?` + escaped + `:?\s`\<close>, \<^verbatim>\<open>`^\[` + escaped + `\]`\<close>,
  \<^verbatim>\<open>`(?i)^[+*\-]\s+(version\s+)?` + escaped\<close>, \<^verbatim>\<open>^\d{4}-\d{2}-\d{2}\<close> and
  \<^verbatim>\<open>^[=\-+]{3,}\s*$\<close>.\<close>

definition rangeRe :: "string \<Rightarrow> regex" where
  "rangeRe escaped = cat [lit escaped, chr CHR ''.'', chr CHR ''.'']"

definition versionLineRe :: "string \<Rightarrow> regex" where
  "versionLineRe escaped = cat [Bot, Opt (chr CHR ''v''), lit escaped, Opt (chr CHR '':''), One space]"

definition bracketRe :: "string \<Rightarrow> regex" where
  "bracketRe escaped = cat [Bot, chr CHR ''['', lit escaped, chr CHR '']'']"

definition bulletRe :: "string \<Rightarrow> regex" where
  "bulletRe escaped = cat [Bot,
     One (Class False [(CHR ''+'', CHR ''+''), (CHR ''*'', CHR ''*''), (CHR ''-'', CHR ''-'')]),
     Rep space 1 None, Opt (Cap 1 (cat [litI ''version'', Rep space 1 None])), litI escaped]"

definition dateLineRe :: regex where
  "dateLineRe = cat [Bot, isodate]"

definition underlineRe :: regex where
  "underlineRe = cat [Bot,
     Rep (Class False [(CHR ''='', CHR ''=''), (CHR ''-'', CHR ''-''), (CHR ''+'', CHR ''+'')]) 3 None,
     Rep space 0 None, Eot]"

text \<open>The loop of \<^verbatim>\<open>LineForVersion\<close> over the lines from index \<open>i\<close> on; \<open>rest\<close> is not
  empty exactly when \<^verbatim>\<open>i+1 < len(lines)\<close>.\<close>

fun scanLines :: "string \<Rightarrow> int \<Rightarrow> string list \<Rightarrow> int" where
  "scanLines ver i [] = - 1"
| "scanLines ver i (line # rest) =
     (if \<not> containsVersion line (lit ver) then scanLines ver (i + 1) rest
      else if MatchString (rangeRe ver) line then scanLines ver (i + 1) rest
      else if HasPrefix line ''#'' \<or> HasPrefix line ''!'' \<or> HasPrefix line ''=='' then i
      else if MatchString (versionLineRe ver) line then i
      else if MatchString (bracketRe ver) line then i
      else if MatchString (bulletRe ver) line then i
      else if MatchString dateLineRe line then i
      else if rest \<noteq> [] \<and> MatchString underlineRe (hd rest) then i
      else scanLines ver (i + 1) rest)"

text \<open>
  \<^verbatim>\<open>LineForVersion\<close> compiles the quoted version with \<^verbatim>\<open>regexp.MustCompile\<close> before
  it looks at the document. A quoted text has no syntax error, but the compiler rejects a
  pattern that is not valid UTF-8, and \<^verbatim>\<open>MustCompile\<close> then panics: the value \<open>None\<close>.
  The patterns compiled inside the loop hold the same quoted version and compile whenever
  the first one does. Limits of resources (memory, the compiler's bound on the size of a
  pattern) are not modelled.
\<close>

definition LineForVersion :: "Parser \<Rightarrow> string \<Rightarrow> int option" where
  "LineForVersion p ver =
     (if ver = [] then Some (- 1)
      else (let ver = TrimPrefix ver ''v''; ver = TrimPrefix ver ''V''
            in if validUTF8 ver then Some (scanLines ver 0 (Split (content p))) else None))"

section \<open>Extracting a range\<close>

definition Between :: "Parser \<Rightarrow> string \<Rightarrow> string \<Rightarrow> (string \<times> bool) option" where
  "Between p oldVersion newVersion = do {
     oldLine \<leftarrow> LineForVersion p oldVersion;
     newLine \<leftarrow> LineForVersion p newVersion;
     (let lines = Split (content p);
          bounds =
            (if oldLine \<ge> 0 \<and> newLine \<ge> 0
             then (if oldLine < newLine then Some (oldLine, int (length lines))
                   else Some (newLine, oldLine))
             else if oldLine \<ge> 0
             then (if oldLine = 0 then None else Some (0, oldLine))
             else if newLine \<ge> 0 then Some (newLine, int (length lines))
             else None)
      in case bounds of
           None \<Rightarrow> Some ([], False)
         | Some (start, end) \<Rightarrow> do {
             sel \<leftarrow> substr lines start end;
             Some (TrimRight (Join sel) [CHR '' '', CHR 0x09, CHR 0x0A], True)
           })
   }"

section \<open>The decision table of the range extractor\<close>

text \<open>
  The specification's side of the range extractor, in its own words: a version is located
  at a line or not found, and a slice is the lines from one index up to another
  (exclusive). The claim says that the joined slice is returned without its trailing white
  space (\<open>right_trim_whitespace\<close>); what holds is that it is returned without its trailing
  spaces, tabs and line feeds (\<open>right_trimmed\<close>).
\<close>

definition locate :: "Parser \<Rightarrow> string \<Rightarrow> nat option" where
  "locate p v = (case LineForVersion p v of
       Some n \<Rightarrow> if n < 0 then None else Some (nat n)
     | None \<Rightarrow> None)"

definition lines_from_to :: "string list \<Rightarrow> nat \<Rightarrow> nat \<Rightarrow> string list" where
  "lines_from_to ls a b = take (b - a) (drop a ls)"

definition decision_table :: "string list \<Rightarrow> nat option \<Rightarrow> nat option \<Rightarrow> string list option" where
  "decision_table ls old new =
     (case old of
        Some a \<Rightarrow>
          (case new of
             Some b \<Rightarrow> if a < b then Some (lines_from_to ls a (length ls))
                       else Some (lines_from_to ls b a)
           | None \<Rightarrow> if a = 0 then None else Some (lines_from_to ls 0 a))
      | None \<Rightarrow>
          (case new of
             Some b \<Rightarrow> Some (lines_from_to ls b (length ls))
           | None \<Rightarrow> None))"

definition right_trim_whitespace :: "string \<Rightarrow> string" where
  "right_trim_whitespace s = rev (dropWhile isSpace (rev s))"

definition right_trimmed :: "string \<Rightarrow> string \<Rightarrow> bool" where
  "right_trimmed s r = ((\<exists>t. s = r @ t \<and> set t \<subseteq> {CHR '' '', CHR 0x09, CHR 0x0A})
     \<and> (r = [] \<or> last r \<notin> {CHR '' '', CHR 0x09, CHR 0x0A}))"

text \<open>The document of the test \<^verbatim>\<open>TestBetween\<close>, and a document whose lines end with a
  carriage return and a line feed.\<close>

definition between_doc :: string where
  "between_doc = ''## [3.0.0] - 2024-03-01\<newline>\<newline>Version 3 content\<newline>\<newline>## [2.0.0] - 2024-02-01\<newline>\<newline>Version 2 content\<newline>\<newline>## [1.0.0] - 2024-01-01\<newline>\<newline>Version 1 content\<newline>''"

definition crlf_doc :: string where
  "crlf_doc = ''## 1.0.0'' @ [CHR 0x0D, CHR 0x0A] @ [CHR 0x0D, CHR 0x0A] @ ''- first''
     @ [CHR 0x0D, CHR 0x0A]"

lemma Split_not_Nil: "Split s \<noteq> []"
  by (induction s) (auto split: list.splits)

lemma Join_Split: "Join (Split s) = s"
proof (induction s)
  case Nil
  then show ?case by simp
next
  case (Cons c cs)
  obtain l ls where sp: "Split cs = l # ls"
    using Split_not_Nil[of cs] by (cases "Split cs") auto
  show ?case
  proof (cases "c = nl")
    case True
    with Cons sp show ?thesis by simp
  next
    case False
    with Cons sp show ?thesis by (cases ls) auto
  qed
qed

lemma scanLines_range:
  "scanLines v i ls = - 1 \<or> (i \<le> scanLines v i ls \<and> scanLines v i ls < i + int (length ls))"
proof (induction ls arbitrary: i)
  case Nil
  then show ?case by simp
next
  case (Cons l ls)
  from Cons[of "i + 1"] show ?case by auto
qed

text \<open>Stripping the prefix does not change whether the token is valid UTF-8, and the
  locator returns for every token that is.\<close>

lemma validUTF8_TrimPrefix:
  "byte c < 0x80 \<Longrightarrow> validUTF8 (TrimPrefix v [c]) = validUTF8 v"
  by (cases v) (auto simp: TrimPrefix_def)

lemma validUTF8_strip:
  "validUTF8 (TrimPrefix (TrimPrefix v ''v'') ''V'') = validUTF8 v"
  by (simp add: validUTF8_TrimPrefix byte_def)

lemma LineForVersion_range:
  assumes "validUTF8 v"
  shows "\<exists>n. LineForVersion p v = Some n
     \<and> (n = - 1 \<or> (0 \<le> n \<and> n < int (length (Split (content p)))))"
  using scanLines_range[of _ 0 "Split (content p)"] assms
  by (auto simp: LineForVersion_def Let_def validUTF8_strip)

lemma LineForVersion_panics:
  "LineForVersion p v = None \<longleftrightarrow> \<not> validUTF8 v"
  by (auto simp: LineForVersion_def Let_def validUTF8_strip)

lemma TrimRight_right_trimmed:
  "right_trimmed s (TrimRight s [CHR '' '', CHR 0x09, CHR 0x0A])"
proof -
  let ?P = "\<lambda>c. c \<in> set [CHR '' '', CHR 0x09, CHR 0x0A]"
  let ?r = "rev (dropWhile ?P (rev s))"
  have "rev s = takeWhile ?P (rev s) @ dropWhile ?P (rev s)" by simp
  then have "s = ?r @ rev (takeWhile ?P (rev s))"
    by (metis rev_append rev_rev_ident)
  moreover have "set (rev (takeWhile ?P (rev s))) \<subseteq> {CHR '' '', CHR 0x09, CHR 0x0A}"
    using set_takeWhileD[of _ ?P "rev s"] by auto
  moreover have "?r = [] \<or> last ?r \<notin> {CHR '' '', CHR 0x09, CHR 0x0A}"
  proof (cases "dropWhile ?P (rev s)")
    case Nil
    then show ?thesis by simp
  next
    case (Cons x xs)
    then have "\<not> ?P x" using hd_dropWhile[of ?P "rev s"] by auto
    with Cons show ?thesis by simp
  qed
  ultimately show ?thesis unfolding right_trimmed_def TrimRight_def by blast
qed

text \<open>The two conditions of \<open>right_trimmed\<close> fix the result.\<close>

lemma right_trimmed_le:
  assumes "s = r @ t" "s = r' @ t'" "set t' \<subseteq> W" "r = [] \<or> last r \<notin> W"
  shows "length r \<le> length r'"
proof (rule ccontr)
  assume "\<not> length r \<le> length r'"
  then have lt: "length r' < length r" by simp
  from assms(1,2) have "r @ t = r' @ t'" by simp
  with lt obtain us where us: "r = r' @ us" "us \<noteq> []" "t' = us @ t"
    by (auto simp: append_eq_append_conv2)
  then have "last r = last us" by simp
  moreover have "last us \<in> set us" using us(2) by simp
  then have "last us \<in> W" using us(3) assms(3) by auto
  moreover have "r \<noteq> []" using us by simp
  ultimately show False using assms(4) by simp
qed

lemma right_trimmed_unique:
  assumes "right_trimmed s r" "right_trimmed s r'"
  shows "r = r'"
proof -
  from assms obtain t t' where
    1: "s = r @ t" "set t \<subseteq> {CHR '' '', CHR 0x09, CHR 0x0A}"
       "r = [] \<or> last r \<notin> {CHR '' '', CHR 0x09, CHR 0x0A}" and
    2: "s = r' @ t'" "set t' \<subseteq> {CHR '' '', CHR 0x09, CHR 0x0A}"
       "r' = [] \<or> last r' \<notin> {CHR '' '', CHR 0x09, CHR 0x0A}"
    unfolding right_trimmed_def by blast
  have "length r = length r'"
    using right_trimmed_le[OF 1(1) 2(1) 2(2) 1(3)] right_trimmed_le[OF 2(1) 1(1) 1(2) 2(3)]
    by simp
  with 1(1) 2(1) show ?thesis by (metis append_eq_append_conv)
qed

text \<open>
  Claim C1 says that the decision table holds for every pair of tokens and that the
  result is right-trimmed of its trailing white space. On a document whose lines end with
  a carriage return and a line feed the result keeps its last carriage return, which the
  removal of all trailing white space would take away: the code trims spaces, tabs and
  line feeds. And for a token that is not valid UTF-8, the byte \<open>0xFF\<close> for one,
  \<open>Between\<close> returns nothing at all: compiling the token panics.
\<close>

theorem Between_trim_and_panic_counterexample:
  "decision_table (Split (content (Parse crlf_doc)))
       (locate (Parse crlf_doc) []) (locate (Parse crlf_doc) ''1.0.0'')
     = Some [''## 1.0.0'' @ [CHR 0x0D], [CHR 0x0D], ''- first'' @ [CHR 0x0D], []]
   \<and> Between (Parse crlf_doc) [] ''1.0.0''
     = Some (''## 1.0.0'' @ [CHR 0x0D, CHR 0x0A] @ [CHR 0x0D, CHR 0x0A] @ ''- first''
          @ [CHR 0x0D], True)
   \<and> right_trim_whitespace
       (Join [''## 1.0.0'' @ [CHR 0x0D], [CHR 0x0D], ''- first'' @ [CHR 0x0D], []])
     = ''## 1.0.0'' @ [CHR 0x0D, CHR 0x0A] @ [CHR 0x0D, CHR 0x0A] @ ''- first''
   \<and> Between (Parse between_doc) [CHR 0xFF] [] = None"
  by code_simp

text \<open>
  Claim C1, amended. For every document and every pair of version tokens that are valid
  UTF-8 (either may be empty), \<open>Between\<close> locates both tokens with \<open>LineForVersion\<close>,
  which returns for such tokens, and follows the decision table: both found and old
  before new, the lines from old to the end of the document; both found otherwise, the
  lines from new up to old (exclusive); only old found, nothing when old is line 0 and the
  lines before old otherwise; only new found, the lines from new to the end; neither
  found, nothing. The result is the selected lines joined by line feeds (joining all lines
  gives the document back), without the trailing spaces, tabs and line feeds and with
  nothing else removed. The slice expression of the code never panics.
\<close>

theorem Between_decision_table:
  "(validUTF8 old \<and> validUTF8 new \<longrightarrow>
      (\<exists>a b. LineForVersion p old = Some a \<and> LineForVersion p new = Some b)
      \<and> (case decision_table (Split (content p)) (locate p old) (locate p new) of
           None \<Rightarrow> Between p old new = Some ([], False)
         | Some sel \<Rightarrow> (\<exists>r. Between p old new = Some (r, True) \<and> right_trimmed (Join sel) r)))
   \<and> Join (Split (content p)) = content p"
proof (intro conjI impI)
  assume v: "validUTF8 old \<and> validUTF8 new"
  let ?T = "[CHR '' '', CHR 0x09, CHR 0x0A]"
  from v LineForVersion_range[of old p] LineForVersion_range[of new p]
  obtain a b where a: "LineForVersion p old = Some a"
      "a = - 1 \<or> (0 \<le> a \<and> a < int (length (Split (content p))))"
    and b: "LineForVersion p new = Some b"
      "b = - 1 \<or> (0 \<le> b \<and> b < int (length (Split (content p))))"
    by blast
  show "\<exists>a b. LineForVersion p old = Some a \<and> LineForVersion p new = Some b"
    using a b by blast
  have trim: "\<And>sel. right_trimmed (Join sel) (TrimRight (Join sel) ?T)"
    by (rule TrimRight_right_trimmed)
  have "case decision_table (Split (content p)) (locate p old) (locate p new) of
      None \<Rightarrow> Between p old new = Some ([], False)
    | Some sel \<Rightarrow> Between p old new = Some (TrimRight (Join sel) ?T, True)"
    using a b
    by (auto simp: Between_def Let_def substr_def slice_def decision_table_def locate_def
        lines_from_to_def nat_diff_distrib)
  then show "case decision_table (Split (content p)) (locate p old) (locate p new) of
      None \<Rightarrow> Between p old new = Some ([], False)
    | Some sel \<Rightarrow> (\<exists>r. Between p old new = Some (r, True) \<and> right_trimmed (Join sel) r)"
    using trim by (auto split: option.splits)
next
  show "Join (Split (content p)) = content p" by (rule Join_Split)
qed

theorem Between_decision_table_witness:
  "validUTF8 ''1.0.0'' \<and> validUTF8 ''3.0.0''
   \<and> decision_table (Split (content (Parse between_doc)))
      (locate (Parse between_doc) ''1.0.0'') (locate (Parse between_doc) ''3.0.0'')
     = Some [''## [3.0.0] - 2024-03-01'', [], ''Version 3 content'', [],
             ''## [2.0.0] - 2024-02-01'', [], ''Version 2 content'', []]
   \<and> (\<exists>r. Between (Parse between_doc) ''1.0.0'' ''3.0.0'' = Some (r, True)
          \<and> right_trimmed (Join [''## [3.0.0] - 2024-03-01'', [], ''Version 3 content'', [],
             ''## [2.0.0] - 2024-02-01'', [], ''Version 2 content'', []]) r)"
proof -
  have v: "validUTF8 ''1.0.0'' \<and> validUTF8 ''3.0.0''" by code_simp
  have t: "decision_table (Split (content (Parse between_doc)))
      (locate (Parse between_doc) ''1.0.0'') (locate (Parse between_doc) ''3.0.0'')
     = Some [''## [3.0.0] - 2024-03-01'', [], ''Version 3 content'', [],
             ''## [2.0.0] - 2024-02-01'', [], ''Version 2 content'', []]"
    by code_simp
  from Between_decision_table[of "''1.0.0''" "''3.0.0''" "Parse between_doc"] v t
  show ?thesis by simp
qed

section \<open>Segmentation: what the parser computes\<close>

text \<open>
  The specification's side of the entry segmenter: the record of a match has the text of
  group 1 as its version, the date of group 2 if that group took part and parses, and as
  its content the trimmed text from the end of the match to the start of the next match
  or the end of the document.
\<close>

definition group_text :: "string \<Rightarrow> int list \<Rightarrow> nat \<Rightarrow> string" where
  "group_text s m g = (if m ! (2 * g) < 0 then [] else slice s (m ! (2 * g)) (m ! (2 * g + 1)))"

definition group_date :: "string \<Rightarrow> int list \<Rightarrow> Time option" where
  "group_date s m = (if length m \<le> 5 \<or> m ! 4 < 0 then None else timeParse (slice s (m ! 4) (m ! 5)))"

fun records :: "string \<Rightarrow> int list list \<Rightarrow> versionEntry list" where
  "records s [] = []"
| "records s (m # ms) =
     \<lparr>version = group_text s m 1,
      entry = \<lparr>Date = group_date s m,
               Content = TrimSpace (slice s (m ! 1)
                 (case ms of [] \<Rightarrow> int (length s) | nxt # _ \<Rightarrow> nxt ! 0))\<rparr>\<rparr>
     # records s ms"

text \<open>A parser as the constructors leave it: nothing parsed yet, group 1 the version.\<close>

definition unparsed :: "string \<Rightarrow> regex \<Rightarrow> Parser" where
  "unparsed c r = \<lparr>content = c, pattern = r, matchGroup = 1, entries = [], parsed = False\<rparr>"

text \<open>Matches are in document order when each one ends before the next one starts.\<close>

definition in_order :: "int list list \<Rightarrow> bool" where
  "in_order ms = sorted_wrt (\<lambda>m m'. m ! 1 \<le> m' ! 0) ms"

text \<open>The bounds of a group are either unset or a range of the text.\<close>

definition caps_ok :: "nat \<Rightarrow> int list \<Rightarrow> bool" where
  "caps_ok L cs = (\<forall>k. 2 * k + 1 < length cs \<longrightarrow>
     cs ! (2 * k) < 0 \<or> (0 \<le> cs ! (2 * k) \<and> cs ! (2 * k) \<le> cs ! (2 * k + 1) \<and> cs ! (2 * k + 1) \<le> int L))"

definition match_ok :: "regex \<Rightarrow> string \<Rightarrow> int list \<Rightarrow> bool" where
  "match_ok r s m = (length m = 2 * (ncap r + 1) \<and> 0 \<le> m ! 0 \<and> m ! 0 \<le> m ! 1
     \<and> m ! 1 \<le> int (length s) \<and> caps_ok (length s) m)"

text \<open>Two documents: headers out of version order with a repeated token, and a token
  that is declared twice with different bodies.\<close>

definition order_doc :: string where
  "order_doc = ''## [3.0.0] - 2024-03-01\<newline>## [1.0.0] - 2024-01-01\<newline>## [2.0.0] - 2024-02-01\<newline>## [1.0.0] - 2023-01-01\<newline>''"

definition dup_doc :: string where
  "dup_doc = ''## [1.0.0] - 2024-02-01\<newline>\<newline>Second release\<newline>\<newline>## [1.0.0] - 2024-01-01\<newline>\<newline>First release\<newline>''"

lemma caps_ok_update:
  assumes "caps_ok L cs" "a \<le> b" "b \<le> L"
  shows "caps_ok L (cs[2 * n := int a, 2 * n + 1 := int b])"
  unfolding caps_ok_def
proof (intro allI impI)
  fix k
  assume k: "2 * k + 1 < length (cs[2 * n := int a, 2 * n + 1 := int b])"
  let ?cs = "cs[2 * n := int a, 2 * n + 1 := int b]"
  show "?cs ! (2 * k) < 0 \<or> (0 \<le> ?cs ! (2 * k) \<and> ?cs ! (2 * k) \<le> ?cs ! (2 * k + 1) \<and> ?cs ! (2 * k + 1) \<le> int L)"
  proof (cases "k = n")
    case True
    with k assms show ?thesis by (simp add: nth_list_update)
  next
    case False
    then have "2 * k \<noteq> 2 * n" "2 * k \<noteq> 2 * n + 1" "2 * k + 1 \<noteq> 2 * n" "2 * k + 1 \<noteq> 2 * n + 1"
      by presburger+
    with k assms(1) show ?thesis by (simp add: caps_ok_def nth_list_update)
  qed
qed

lemma run_caps_ok:
  "((p', pv', r'), cs') \<in> set (run a ((p, pv, r), cs)) \<Longrightarrow> caps_ok (p + length r) cs
     \<Longrightarrow> caps_ok (p + length r) cs'"
proof (induction a arbitrary: p pv r cs p' pv' r' cs')
  case (Seq a b)
  from Seq.prems obtain p1 pv1 r1 cs1 where
    1: "((p1, pv1, r1), cs1) \<in> set (run a ((p, pv, r), cs))" and
    2: "((p', pv', r'), cs') \<in> set (run b ((p1, pv1, r1), cs1))"
    by auto
  from run_pos[OF 1] have eq: "p1 + length r1 = p + length r" by simp
  from Seq.IH(1)[OF 1 Seq.prems(2)] have "caps_ok (p1 + length r1) cs1" by (simp add: eq)
  from Seq.IH(2)[OF 2 this] show ?case by (simp add: eq)
next
  case (Cap n a)
  from Cap.prems(1) obtain cs0 where
    1: "((p', pv', r'), cs0) \<in> set (run a ((p, pv, r), cs))" and
    cs': "cs' = cs0[2 * n := int p, 2 * n + 1 := int p']"
    by auto
  from run_pos[OF 1] have "p \<le> p'" "p' \<le> p + length r" by auto
  with Cap.IH[OF 1 Cap.prems(2)] show ?case unfolding cs' by (intro caps_ok_update)
next
  case (Opt a)
  then show ?case by auto
qed (auto split: if_splits list.splits)

lemma caps_ok_replicate: "caps_ok L (replicate k (- 1))"
  by (simp add: caps_ok_def)

lemma execute_caps_ok:
  "execute r n p pv rest = Some m \<Longrightarrow> caps_ok (p + length rest) m"
proof (induction r n p pv rest rule: execute.induct)
  case (1 r n p pv rest)
  show ?case
  proof (cases "run r ((p, pv, rest), replicate (2 * (n + 1)) (- 1))")
    case Nil
    with "1.prems" obtain x xs where rest: "rest = x # xs"
      and e: "execute r n (Suc p) (Some x) xs = Some m"
      by (auto split: list.splits)
    from "1.IH"[OF Nil rest e] rest show ?thesis by simp
  next
    case (Cons st sts)
    obtain p' pv' r' cs' where st: "st = ((p', pv', r'), cs')" by (metis prod.exhaust)
    have mem: "((p', pv', r'), cs') \<in> set (run r ((p, pv, rest), replicate (2 * (n + 1)) (- 1)))"
      using Cons st by simp
    from run_pos[OF mem] have le: "p \<le> p'" "p' \<le> p + length rest" by auto
    have "caps_ok (p + length rest) cs'"
      by (rule run_caps_ok[OF mem caps_ok_replicate])
    from caps_ok_update[OF this le, of 0] have "caps_ok (p + length rest) (cs'[0 := int p, 1 := int p'])"
      by simp
    moreover have "m = cs'[0 := int p, 1 := int p']" using "1.prems" Cons st by simp
    ultimately show ?thesis by simp
  qed
qed

lemma doExecute_match_ok:
  assumes "doExecute r s pos = Some m" "pos \<le> length s"
  shows "match_ok r s m"
proof -
  from assms(1) have e: "execute r (ncap r) pos (if pos = 0 then None else Some (s ! (pos - 1))) (drop pos s) = Some m"
    by (simp add: doExecute_def)
  from execute_caps_ok[OF e] assms(2) have "caps_ok (length s) m" by simp
  with doExecute_bounds[OF assms] show ?thesis by (auto simp: match_ok_def)
qed

lemma allMatches_ok:
  "(\<forall>m \<in> set (allMatches r s pos prev). int pos \<le> m ! 0 \<and> match_ok r s m)
     \<and> in_order (allMatches r s pos prev)"
proof (induction r s pos prev rule: allMatches.induct)
  case (1 r s pos prev)
  show ?case
  proof (cases "pos \<le> length s")
    case False
    then show ?thesis by (simp add: allMatches.simps in_order_def)
  next
    case le: True
    show ?thesis
    proof (cases "doExecute r s pos")
      case None
      with le show ?thesis by (simp add: allMatches.simps in_order_def)
    next
      case (Some m)
      note ok = doExecute_match_ok[OF Some le]
      note bd = doExecute_bounds[OF Some le]
      show ?thesis
      proof (cases "m ! 1 = int pos")
        case True
        from "1.IH"(1)[OF le Some True] have
          ih: "\<forall>m' \<in> set (allMatches r s (pos + 1) (m ! 1)). int (pos + 1) \<le> m' ! 0 \<and> match_ok r s m'"
              "in_order (allMatches r s (pos + 1) (m ! 1))" by auto
        have eq: "allMatches r s pos prev = (if m ! 0 = prev then [] else [m]) @ allMatches r s (pos + 1) (m ! 1)"
          using le Some True by (subst allMatches.simps) simp
        show ?thesis unfolding eq using ih ok bd True
          by (auto simp: in_order_def sorted_wrt_append)
      next
        case False
        from "1.IH"(2)[OF le Some False] have
          ih: "\<forall>m' \<in> set (allMatches r s (nat (m ! 1)) (m ! 1)). int (nat (m ! 1)) \<le> m' ! 0 \<and> match_ok r s m'"
              "in_order (allMatches r s (nat (m ! 1)) (m ! 1))" by auto
        have eq: "allMatches r s pos prev = m # allMatches r s (nat (m ! 1)) (m ! 1)"
          using le Some False by (subst allMatches.simps) simp
        show ?thesis unfolding eq using ih ok bd False
          by (auto simp: in_order_def)
      qed
    qed
  qed
qed

lemma match_ok_group:
  assumes "match_ok r s m" "2 * g + 1 < length m"
  shows "m ! (2 * g) < 0 \<or> (0 \<le> m ! (2 * g) \<and> m ! (2 * g) \<le> m ! (2 * g + 1) \<and> m ! (2 * g + 1) \<le> int (length s))"
  using assms unfolding match_ok_def caps_ok_def by blast

lemma extractGroup_ok:
  assumes "match_ok r (content p) m" "1 \<le> ncap r"
  shows "extractGroup p m 1 = Some (group_text (content p) m 1)"
proof -
  from assms have len: "3 < length m" by (simp add: match_ok_def)
  from match_ok_group[OF assms(1), of 1] len show ?thesis
    by (auto simp: extractGroup_def index_def substr_def group_text_def)
qed

lemma extractDate_ok:
  assumes "match_ok r (content p) m" "matchGroup p = 1"
  shows "extractDate p m = Some (group_date (content p) m)"
proof (cases "length m \<le> 5")
  case True
  with assms show ?thesis by (simp add: extractDate_def group_date_def)
next
  case False
  with match_ok_group[OF assms(1), of 2] assms(2) show ?thesis
    by (auto simp: extractDate_def index_def substr_def group_date_def Let_def)
qed

lemma doParse_loop_records:
  assumes "\<forall>m \<in> set ms. match_ok r (content p) m" "in_order ms" "1 \<le> ncap r" "matchGroup p = 1"
  shows "doParse_loop p ms = Some (p\<lparr>entries := entries p @ records (content p) ms\<rparr>)"
  using assms
proof (induction ms arbitrary: p)
  case Nil
  then show ?case by simp
next
  case (Cons m ms)
  let ?s = "content p"
  from Cons.prems have ok: "match_ok r ?s m" by simp
  then have len: "1 < length m" and b: "0 \<le> m ! 1" "m ! 1 \<le> int (length ?s)"
    by (auto simp: match_ok_def)
  let ?ce = "case ms of [] \<Rightarrow> int (length ?s) | nxt # _ \<Rightarrow> nxt ! 0"
  have ce: "(case ms of [] \<Rightarrow> Some (int (length ?s)) | nxt # _ \<Rightarrow> index nxt 0) = Some ?ce"
    using Cons.prems(1) by (cases ms) (auto simp: index_def match_ok_def)
  have ce_bounds: "m ! 1 \<le> ?ce \<and> ?ce \<le> int (length ?s)"
  proof (cases ms)
    case Nil
    with b show ?thesis by simp
  next
    case (Cons nxt rest)
    with Cons.prems(1,2) \<open>in_order (m # ms)\<close> show ?thesis
      by (auto simp: in_order_def match_ok_def)
  qed
  let ?p' = "p\<lparr>entries := entries p @
            [\<lparr>version = group_text ?s m 1, entry = \<lparr>Date = group_date ?s m,
               Content = TrimSpace (slice ?s (m ! 1) ?ce)\<rparr>\<rparr>]\<rparr>"
  have step: "doParse_loop p (m # ms) = doParse_loop ?p' ms"
    using extractGroup_ok[OF ok Cons.prems(3)] extractDate_ok[OF ok Cons.prems(4)] len ce ce_bounds b
    by (simp add: Cons.prems(4) index_def substr_def)
  have "doParse_loop ?p' ms = Some (?p'\<lparr>entries := entries ?p' @ records (content ?p') ms\<rparr>)"
    using Cons.prems by (intro Cons.IH) (auto simp: in_order_def)
  with step show ?case by simp
qed

lemma map_version_records: "map version (records s ms) = map (\<lambda>m. group_text s m 1) ms"
  by (induction ms) auto

lemma ensureParsed_unparsed:
  assumes "1 \<le> ncap r"
  shows "ensureParsed (unparsed c r) =
     Some ((unparsed c r)\<lparr>parsed := True,
        entries := (if c = [] then [] else records c (FindAllStringSubmatchIndex r c))\<rparr>)"
proof (cases "c = [] \<or> FindAllStringSubmatchIndex r c = []")
  case True
  then show ?thesis by (auto simp: ensureParsed_def doParse_def unparsed_def)
next
  case False
  let ?p = "(unparsed c r)\<lparr>parsed := True\<rparr>"
  have "doParse_loop ?p (FindAllStringSubmatchIndex r c)
      = Some (?p\<lparr>entries := entries ?p @ records (content ?p) (FindAllStringSubmatchIndex r c)\<rparr>)"
    using allMatches_ok[of r c 0 "- 1"] assms
    by (intro doParse_loop_records[where r = r]) (auto simp: FindAllStringSubmatchIndex_def unparsed_def)
  with False show ?thesis by (simp add: ensureParsed_def doParse_def unparsed_def Let_def)
qed

lemma ncap_builtin:
  "ncap keepAChangelog = 2" "ncap markdownHeader = 2" "ncap underlineHeader = 1"
  by (simp_all add: keepAChangelog_def markdownHeader_def underlineHeader_def cat_def chr_def
      isodate_def vtoken_def)

lemma ncap_detectFormat: "1 \<le> ncap (detectFormat c)"
  by (simp add: detectFormat_def ncap_builtin)

lemma Parse_unparsed: "Parse c = unparsed c (detectFormat c)"
  by (simp add: Parse_def unparsed_def)

text \<open>
  Claim C4. For every document and every matcher that has a group 1, the entry segmenter
  never fails and its records are the matches of the matcher in document order: the
  versions are the texts of group 1 of the matches, one record for each match, in the order
  of the matches (each match ends before the next one starts), so that a repeated token
  gives one record for each occurrence. With no match the record sequence is empty.
  \<open>Versions\<close> returns the versions in this order. (An empty document has no record.)
\<close>

theorem Versions_document_order:
  assumes "1 \<le> ncap r"
  shows "\<exists>p'. ensureParsed (unparsed c r) = Some p'
     \<and> Versions (unparsed c r) = Some (map version (entries p'), p')
     \<and> entries p' = (if c = [] then [] else records c (FindAllStringSubmatchIndex r c))
     \<and> map version (records c (FindAllStringSubmatchIndex r c))
         = map (\<lambda>m. group_text c m 1) (FindAllStringSubmatchIndex r c)
     \<and> length (records c (FindAllStringSubmatchIndex r c)) = length (FindAllStringSubmatchIndex r c)
     \<and> in_order (FindAllStringSubmatchIndex r c)
     \<and> (FindAllStringSubmatchIndex r c = [] \<longrightarrow> entries p' = [] \<and> Versions (unparsed c r) = Some ([], p'))"
proof -
  have len: "length (records c (FindAllStringSubmatchIndex r c)) = length (FindAllStringSubmatchIndex r c)"
    using arg_cong[OF map_version_records[of c "FindAllStringSubmatchIndex r c"], of length] by simp
  show ?thesis
    using ensureParsed_unparsed[OF assms, of c] allMatches_ok[of r c 0 "- 1"] len
    by (auto simp: Versions_def map_version_records FindAllStringSubmatchIndex_def)
qed

theorem Versions_document_order_witness:
  "1 \<le> ncap keepAChangelog
   \<and> (\<exists>p'. Versions (unparsed order_doc keepAChangelog)
          = Some ([''3.0.0'', ''1.0.0'', ''2.0.0'', ''1.0.0''], p'))"
proof -
  have n: "1 \<le> ncap keepAChangelog" by (simp add: ncap_builtin)
  have v: "map version (records order_doc (FindAllStringSubmatchIndex keepAChangelog order_doc))
      = [''3.0.0'', ''1.0.0'', ''2.0.0'', ''1.0.0'']"
    by code_simp
  have ne: "order_doc \<noteq> []" by (simp add: order_doc_def)
  from Versions_document_order[OF n, of order_doc] v ne n show ?thesis by auto
qed

lemma Entry_loop_first:
  "i < length es \<Longrightarrow> version (es ! i) = v \<Longrightarrow> \<forall>k<i. version (es ! k) \<noteq> v
     \<Longrightarrow> Entry_loop es v = (entry (es ! i), True)"
proof (induction es arbitrary: i)
  case Nil
  then show ?case by simp
next
  case (Cons e es)
  show ?case
  proof (cases i)
    case 0
    with Cons.prems show ?thesis by simp
  next
    case (Suc i')
    with Cons.prems have "version e \<noteq> v" by auto
    moreover have "Entry_loop es v = (entry (es ! i'), True)"
      using Cons.prems Suc by (intro Cons.IH) auto
    ultimately show ?thesis using Suc by simp
  qed
qed

lemma Entries_loop_absent:
  "\<forall>e \<in> set es. version e \<noteq> v \<Longrightarrow> Entries_loop m es v = m v"
  by (induction es arbitrary: m) auto

lemma Entries_loop_last:
  "j < length es \<Longrightarrow> version (es ! j) = v \<Longrightarrow> \<forall>k. j < k \<and> k < length es \<longrightarrow> version (es ! k) \<noteq> v
     \<Longrightarrow> Entries_loop m es v = Some (entry (es ! j))"
proof (induction es arbitrary: j m)
  case Nil
  then show ?case by simp
next
  case (Cons e es)
  show ?case
  proof (cases j)
    case 0
    have "\<forall>e' \<in> set es. version e' \<noteq> v"
    proof
      fix e' assume "e' \<in> set es"
      then obtain k where "k < length es" "es ! k = e'" by (auto simp: in_set_conv_nth)
      with Cons.prems(3)[rule_format, of "Suc k"] 0 show "version e' \<noteq> v" by auto
    qed
    from Entries_loop_absent[OF this] Cons.prems 0 show ?thesis by simp
  next
    case (Suc j')
    have "Entries_loop (m(version e \<mapsto> entry e)) es v = Some (entry (es ! j'))"
    proof (rule Cons.IH)
      show "j' < length es" using Cons.prems Suc by simp
      show "version (es ! j') = v" using Cons.prems Suc by simp
      show "\<forall>k. j' < k \<and> k < length es \<longrightarrow> version (es ! k) \<noteq> v"
        using Cons.prems(3)[rule_format, of "Suc _"] Suc by auto
    qed
    with Suc show ?thesis by simp
  qed
qed

lemma dup_entries:
  "records dup_doc (FindAllStringSubmatchIndex (detectFormat dup_doc) dup_doc) =
    [\<lparr>version = ''1.0.0'', entry = \<lparr>Date = Some \<lparr>year = 2024, month = 2, day = 1\<rparr>, Content = ''Second release''\<rparr>\<rparr>,
     \<lparr>version = ''1.0.0'', entry = \<lparr>Date = Some \<lparr>year = 2024, month = 1, day = 1\<rparr>, Content = ''First release''\<rparr>\<rparr>]"
  by code_simp

text \<open>
  Claim C9. When a version token appears more than once in the parsed records, \<open>Entries\<close>
  maps the token to the entry of its last occurrence and \<open>Entry\<close> returns the entry of
  its first occurrence. With \<open>i\<close> the first and \<open>j\<close> the last index of the token in
  the record sequence, the two accessors return the entries of the records \<open>i\<close> and \<open>j\<close>,
  and their results differ whenever these two entries differ.
\<close>

theorem Entry_first_Entries_last:
  assumes "ensureParsed p = Some p'"
    and "i < length (entries p')" and "version (entries p' ! i) = v"
    and "\<forall>k<i. version (entries p' ! k) \<noteq> v"
    and "j < length (entries p')" and "version (entries p' ! j) = v"
    and "\<forall>k. j < k \<and> k < length (entries p') \<longrightarrow> version (entries p' ! k) \<noteq> v"
  shows "i \<le> j
     \<and> Entry p v = Some ((entry (entries p' ! i), True), p')
     \<and> (\<exists>m. Entries p = Some (m, p') \<and> m v = Some (entry (entries p' ! j))
          \<and> (entry (entries p' ! i) \<noteq> entry (entries p' ! j)
               \<longrightarrow> m v \<noteq> Some (fst (fst (the (Entry p v))))))"
proof -
  have "i \<le> j" using assms(2,3,7) by (metis not_le_imp_less)
  moreover have "Entry p v = Some ((entry (entries p' ! i), True), p')"
    using Entry_loop_first[OF assms(2,3,4)] assms(1) by (simp add: Entry_def)
  moreover have "Entries p = Some (Entries_loop Map.empty (entries p'), p')"
    using assms(1) by (simp add: Entries_def)
  ultimately show ?thesis
    using Entries_loop_last[OF assms(5,6,7), of Map.empty] by auto
qed



theorem Entry_first_Entries_last_witness:
  "\<exists>p' m. ensureParsed (Parse dup_doc) = Some p'
     \<and> Entry (Parse dup_doc) ''1.0.0''
         = Some ((\<lparr>Date = Some \<lparr>year = 2024, month = 2, day = 1\<rparr>,
                   Content = ''Second release''\<rparr>, True), p')
     \<and> Entries (Parse dup_doc) = Some (m, p')
     \<and> m ''1.0.0'' = Some \<lparr>Date = Some \<lparr>year = 2024, month = 1, day = 1\<rparr>,
                            Content = ''First release''\<rparr>
     \<and> m ''1.0.0'' \<noteq> Some (fst (fst (the (Entry (Parse dup_doc) ''1.0.0''))))"
proof -
  let ?p' = "(unparsed dup_doc (detectFormat dup_doc))\<lparr>parsed := True,
     entries := records dup_doc (FindAllStringSubmatchIndex (detectFormat dup_doc) dup_doc)\<rparr>"
  have ne: "dup_doc \<noteq> []" by (simp add: dup_doc_def)
  have e: "ensureParsed (Parse dup_doc) = Some ?p'"
    using ensureParsed_unparsed[OF ncap_detectFormat, of dup_doc] ne by (simp add: Parse_unparsed)
  have es: "entries ?p' =
    [\<lparr>version = ''1.0.0'', entry = \<lparr>Date = Some \<lparr>year = 2024, month = 2, day = 1\<rparr>,
        Content = ''Second release''\<rparr>\<rparr>,
     \<lparr>version = ''1.0.0'', entry = \<lparr>Date = Some \<lparr>year = 2024, month = 1, day = 1\<rparr>,
        Content = ''First release''\<rparr>\<rparr>]"
    by (simp add: dup_entries)
  have "(1::nat) < length (entries ?p')" "(0::nat) < length (entries ?p')"
    "version (entries ?p' ! 0) = ''1.0.0''" "version (entries ?p' ! 1) = ''1.0.0''"
    "\<forall>k<0::nat. version (entries ?p' ! k) \<noteq> ''1.0.0''"
    "\<forall>k. 1 < k \<and> k < length (entries ?p') \<longrightarrow> version (entries ?p' ! k) \<noteq> ''1.0.0''"
    unfolding es by auto
  from Entry_first_Entries_last[OF e this(2,3,5,1,4,6)] show ?thesis
    unfolding es using e by auto
qed

section \<open>Fetching from a repository\<close>

text \<open>
  The fields of \<^verbatim>\<open>url.URL\<close> that \<^verbatim>\<open>RawContentURL\<close> reads. The standard library's
  \<^verbatim>\<open>url.Parse\<close> is a parameter of the model: a function from the text to an error
  message or a URL. An \<^verbatim>\<open>error\<close> is its message.
\<close>

record URL =
  Host :: string
  Path :: string

type_synonym error = string

definition RawContentURL :: "(string \<Rightarrow> error + URL) \<Rightarrow> string \<Rightarrow> string \<Rightarrow> error + string" where
  "RawContentURL urlParse repoURL filename =
     (let repoURL = TrimSuffix repoURL ''.git'';
          repoURL = TrimSuffix repoURL ''/''
      in case urlParse repoURL of
           Inl err \<Rightarrow> Inl (''parsing repository URL: '' @ err)
         | Inr parsedURL \<Rightarrow>
             (let parts = SplitN (TrimPrefix (Path parsedURL) ''/'') 3 in
              if length parts < 2 then Inl (''cannot parse owner/repo from '' @ repoURL)
              else (let owner = parts ! 0; repo = parts ! 1 in
                if Host parsedURL = ''github.com''
                then Inr (''https://raw.githubusercontent.com/'' @ owner @ ''/'' @ repo
                          @ ''/HEAD/'' @ filename)
                else if Host parsedURL = ''gitlab.com''
                then Inr (''https://gitlab.com/'' @ owner @ ''/'' @ repo @ ''/-/raw/HEAD/''
                          @ filename)
                else Inl (''unsupported host '' @ Host parsedURL
                          @ '' (only github.com and gitlab.com are supported)''))))"

text \<open>
  The network, as \<^verbatim>\<open>FetchAndParse\<close> uses it: building a request may fail; sending it
  fails or gives a status code and a body, whose reading may fail. \<open>FetchAndParse\<close>
  returns its result and the list of the URLs that it has sent a request to.
\<close>

record network =
  newRequest :: "string \<Rightarrow> error option"
  doRequest :: "string \<Rightarrow> error + (nat \<times> (error + string))"

fun digits :: "nat \<Rightarrow> nat \<Rightarrow> string" where
  "digits 0 n = []"
| "digits (Suc k) n = (if n < 10 then [char_of (48 + n)]
     else digits k (n div 10) @ [char_of (48 + n mod 10)])"

definition itoa :: "nat \<Rightarrow> string" where
  "itoa n = digits (Suc n) n"

definition FetchAndParse ::
  "network \<Rightarrow> (string \<Rightarrow> error + URL) \<Rightarrow> string \<Rightarrow> string \<Rightarrow> (error + Parser) \<times> string list" where
  "FetchAndParse net urlParse repoURL filename =
     (case RawContentURL urlParse repoURL filename of
        Inl err \<Rightarrow> (Inl err, [])
      | Inr rawURL \<Rightarrow>
          (case newRequest net rawURL of
             Some err \<Rightarrow> (Inl err, [])
           | None \<Rightarrow>
               (case doRequest net rawURL of
                  Inl err \<Rightarrow> (Inl err, [rawURL])
                | Inr (status, body) \<Rightarrow>
                    if status \<noteq> 200
                    then (Inl (''HTTP '' @ itoa status @ '' fetching '' @ rawURL), [rawURL])
                    else (case body of
                            Inl err \<Rightarrow> (Inl err, [rawURL])
                          | Inr b \<Rightarrow> (Inr (Parse b), [rawURL])))))"

text \<open>
  \<^verbatim>\<open>url.Parse\<close> on the plain web addresses of the examples, \<^verbatim>\<open>scheme://host/path\<close>
  with no user, port, query, fragment or escape: the host is the text between \<^verbatim>\<open>://\<close>
  and the next slash, the path is the rest. It stands for the parameter where an example
  is evaluated.
\<close>

fun afterScheme :: "string \<Rightarrow> string option" where
  "afterScheme (a # b # c # s) =
     (if a = CHR '':'' \<and> b = CHR ''/'' \<and> c = CHR ''/'' then Some s else afterScheme (b # c # s))"
| "afterScheme _ = None"

definition urlParse_plain :: "string \<Rightarrow> error + URL" where
  "urlParse_plain s =
     (case afterScheme s of
        None \<Rightarrow> Inl ''not a plain web address''
      | Some rest \<Rightarrow> Inr \<lparr>Host = takeWhile (\<lambda>c. c \<noteq> CHR ''/'') rest,
                          Path = dropWhile (\<lambda>c. c \<noteq> CHR ''/'') rest\<rparr>)"

section \<open>What a pattern matches\<close>

text \<open>
  A declarative reading of the patterns: \<open>sem r pv p w post cs cs'\<close> says that \<open>r\<close>
  matches the text \<open>w\<close> at position \<open>p\<close>, after the character \<open>pv\<close> and before the
  text \<open>post\<close>, and turns the group bounds \<open>cs\<close> into \<open>cs'\<close>. The backtracking matcher
  \<open>run\<close> finds exactly these matches, and every match that a search returns is one of
  them.
\<close>

definition lastc :: "char option \<Rightarrow> string \<Rightarrow> char option" where
  "lastc pv w = (if w = [] then pv else Some (last w))"

fun sem :: "regex \<Rightarrow> char option \<Rightarrow> nat \<Rightarrow> string \<Rightarrow> string \<Rightarrow> int list \<Rightarrow> int list \<Rightarrow> bool" where
  "sem Eps pv p w post cs cs' = (w = [] \<and> cs' = cs)"
| "sem Bol pv p w post cs cs' = (w = [] \<and> cs' = cs \<and> (pv = None \<or> pv = Some nl))"
| "sem Bot pv p w post cs cs' = (w = [] \<and> cs' = cs \<and> p = 0)"
| "sem Eot pv p w post cs cs' = (w = [] \<and> cs' = cs \<and> post = [])"
| "sem (One c) pv p w post cs cs' = (\<exists>x. w = [x] \<and> in_class c x \<and> cs' = cs)"
| "sem (Rep c lo hi) pv p w post cs cs' = (list_all (in_class c) w \<and> lo \<le> length w
     \<and> (case hi of None \<Rightarrow> True | Some h \<Rightarrow> length w \<le> h) \<and> cs' = cs)"
| "sem (Opt a) pv p w post cs cs' = (sem a pv p w post cs cs' \<or> (w = [] \<and> cs' = cs))"
| "sem (Cap n a) pv p w post cs cs' =
     (\<exists>cs0. sem a pv p w post cs cs0 \<and> cs' = cs0[2 * n := int p, 2 * n + 1 := int (p + length w)])"
| "sem (Seq a b) pv p w post cs cs' =
     (\<exists>w1 w2 cs1. w = w1 @ w2 \<and> sem a pv p w1 (w2 @ post) cs cs1
        \<and> sem b (lastc pv w1) (p + length w1) w2 post cs1 cs')"

lemma lastc_Nil [simp]: "lastc pv [] = pv"
  by (simp add: lastc_def)

lemma lastc_Cons [simp]: "lastc pv (x # w) = lastc (Some x) w"
  by (simp add: lastc_def)

lemma lastc_append [simp]: "lastc pv (w1 @ w2) = lastc (lastc pv w1) w2"
  by (simp add: lastc_def)

text \<open>The matches of a counted repetition, from \<open>k\<close> iterations on.\<close>

definition repsR :: "cclass \<Rightarrow> nat \<Rightarrow> nat option \<Rightarrow> nat \<Rightarrow> nat \<Rightarrow> char option \<Rightarrow> string \<Rightarrow> cursor \<Rightarrow> string \<Rightarrow> bool" where
  "repsR c lo hi k p pv r cur w = (r = w @ snd (snd cur) \<and> fst cur = p + length w \<and> fst (snd cur) = lastc pv w
     \<and> list_all (in_class c) w \<and> lo \<le> k + length w
     \<and> (w = [] \<or> (case hi of None \<Rightarrow> True | Some h \<Rightarrow> k + length w \<le> h)))"

lemma repsR_Nil:
  "repsR c lo hi k p pv r cur [] \<longleftrightarrow> lo \<le> k \<and> cur = (p, pv, r)"
  by (cases cur) (auto simp: repsR_def)

lemma repsR_Cons:
  "repsR c lo hi k p pv r cur (x # w) \<longleftrightarrow>
     (\<exists>xs. r = x # xs \<and> in_class c x \<and> (case hi of None \<Rightarrow> True | Some h \<Rightarrow> k < h)
        \<and> repsR c lo hi (Suc k) (Suc p) (Some x) xs cur w)"
proof (cases hi)
  case None
  then show ?thesis by (cases r) (auto simp: repsR_def)
next
  case (Some h)
  then show ?thesis by (cases r; cases w) (auto simp: repsR_def)
qed

lemma ex_list_cases: "(\<exists>w. P w) \<longleftrightarrow> P [] \<or> (\<exists>x w. P (x # w))"
  by (metis list.exhaust)

lemma in_reps:
  "cur \<in> set (reps c lo hi k p pv r) \<longleftrightarrow> (\<exists>w. repsR c lo hi k p pv r cur w)"
proof (induction r arbitrary: k p pv)
  case Nil
  have "(\<exists>w. repsR c lo hi k p pv [] cur w) \<longleftrightarrow> repsR c lo hi k p pv [] cur []"
    by (subst ex_list_cases) (simp add: repsR_Cons)
  then show ?case by (auto simp: repsR_Nil)
next
  case (Cons x xs)
  have "(\<exists>w. repsR c lo hi k p pv (x # xs) cur w) \<longleftrightarrow>
      repsR c lo hi k p pv (x # xs) cur [] \<or>
      (in_class c x \<and> (case hi of None \<Rightarrow> True | Some h \<Rightarrow> k < h)
         \<and> (\<exists>w. repsR c lo hi (Suc k) (Suc p) (Some x) xs cur w))"
    by (subst ex_list_cases) (auto simp: repsR_Cons)
  then show ?case unfolding repsR_Nil Cons.IH[symmetric] by auto
qed

lemma run_sem:
  "((p', pv', r'), cs') \<in> set (run a ((p, pv, r), cs)) \<longleftrightarrow>
     (\<exists>w. r = w @ r' \<and> p' = p + length w \<and> pv' = lastc pv w \<and> sem a pv p w r' cs cs')"
proof (induction a arbitrary: p pv r cs p' pv' r' cs')
  case (One c)
  then show ?case by (cases r) auto
next
  case (Rep c lo hi)
  have "((p', pv', r'), cs') \<in> set (run (Rep c lo hi) ((p, pv, r), cs))
      \<longleftrightarrow> cs' = cs \<and> (p', pv', r') \<in> set (reps c lo hi 0 p pv r)" by auto
  also have "\<dots> \<longleftrightarrow> cs' = cs \<and> (\<exists>w. repsR c lo hi 0 p pv r (p', pv', r') w)"
    unfolding in_reps ..
  also have "\<dots> \<longleftrightarrow> (\<exists>w. r = w @ r' \<and> p' = p + length w \<and> pv' = lastc pv w
       \<and> sem (Rep c lo hi) pv p w r' cs cs')"
    by (cases hi) (auto simp: repsR_def)
  finally show ?case .
next
  case (Opt a)
  then show ?case by auto
next
  case (Cap n a)
  have "((p', pv', r'), cs') \<in> set (run (Cap n a) ((p, pv, r), cs)) \<longleftrightarrow>
      (\<exists>cs0. ((p', pv', r'), cs0) \<in> set (run a ((p, pv, r), cs))
         \<and> cs' = cs0[2 * n := int p, 2 * n + 1 := int p'])"
    by force
  then show ?case unfolding Cap.IH by auto
next
  case (Seq a b)
  have "((p', pv', r'), cs') \<in> set (run (Seq a b) ((p, pv, r), cs)) \<longleftrightarrow>
      (\<exists>p1 pv1 r1 cs1. ((p1, pv1, r1), cs1) \<in> set (run a ((p, pv, r), cs))
         \<and> ((p', pv', r'), cs') \<in> set (run b ((p1, pv1, r1), cs1)))"
    by auto
  also have "\<dots> \<longleftrightarrow> (\<exists>w. r = w @ r' \<and> p' = p + length w \<and> pv' = lastc pv w
       \<and> sem (Seq a b) pv p w r' cs cs')"
  proof
    assume "\<exists>p1 pv1 r1 cs1. ((p1, pv1, r1), cs1) \<in> set (run a ((p, pv, r), cs))
         \<and> ((p', pv', r'), cs') \<in> set (run b ((p1, pv1, r1), cs1))"
    then obtain p1 pv1 r1 cs1 where
      1: "((p1, pv1, r1), cs1) \<in> set (run a ((p, pv, r), cs))" and
      2: "((p', pv', r'), cs') \<in> set (run b ((p1, pv1, r1), cs1))" by blast
    from 1 obtain w1 where w1: "r = w1 @ r1" "p1 = p + length w1" "pv1 = lastc pv w1"
      "sem a pv p w1 r1 cs cs1" unfolding Seq.IH by blast
    from 2 obtain w2 where w2: "r1 = w2 @ r'" "p' = p1 + length w2" "pv' = lastc pv1 w2"
      "sem b pv1 p1 w2 r' cs1 cs'" unfolding Seq.IH by blast
    have "sem (Seq a b) pv p (w1 @ w2) r' cs cs'"
      using w1 w2 by auto
    with w1 w2 show "\<exists>w. r = w @ r' \<and> p' = p + length w \<and> pv' = lastc pv w
       \<and> sem (Seq a b) pv p w r' cs cs'"
      by (intro exI[of _ "w1 @ w2"]) simp
  next
    assume "\<exists>w. r = w @ r' \<and> p' = p + length w \<and> pv' = lastc pv w
       \<and> sem (Seq a b) pv p w r' cs cs'"
    then obtain w1 w2 cs1 where w: "r = (w1 @ w2) @ r'" "p' = p + length (w1 @ w2)"
      "pv' = lastc pv (w1 @ w2)" "sem a pv p w1 (w2 @ r') cs cs1"
      "sem b (lastc pv w1) (p + length w1) w2 r' cs1 cs'" by auto
    have 1: "((p + length w1, lastc pv w1, w2 @ r'), cs1) \<in> set (run a ((p, pv, r), cs))"
      unfolding Seq.IH using w by auto
    have 2: "((p', pv', r'), cs') \<in> set (run b ((p + length w1, lastc pv w1, w2 @ r'), cs1))"
      unfolding Seq.IH using w by auto
    from 1 2 show "\<exists>p1 pv1 r1 cs1. ((p1, pv1, r1), cs1) \<in> set (run a ((p, pv, r), cs))
         \<and> ((p', pv', r'), cs') \<in> set (run b ((p1, pv1, r1), cs1))" by blast
  qed
  finally show ?case .
qed auto

text \<open>A match of \<open>r\<close> somewhere in \<open>s\<close>, as an array of group bounds.\<close>

definition sem_match :: "regex \<Rightarrow> string \<Rightarrow> int list \<Rightarrow> bool" where
  "sem_match r s m = (\<exists>pre w post cs'. s = pre @ w @ post
     \<and> sem r (lastc None pre) (length pre) w post (replicate (2 * (ncap r + 1)) (- 1)) cs'
     \<and> m = cs'[0 := int (length pre), 1 := int (length pre + length w)])"

lemma execute_None_iff:
  "execute r n p pv rest = None \<longleftrightarrow>
     (\<forall>k \<le> length rest. run r ((p + k, lastc pv (take k rest), drop k rest), replicate (2 * (n + 1)) (- 1)) = [])"
proof (induction r n p pv rest rule: execute.induct)
  case (1 r n p pv rest)
  let ?run = "\<lambda>p pv rest. run r ((p, pv, rest), replicate (2 * (n + 1)) (- 1))"
  show ?case
  proof (cases "?run p pv rest")
    case (Cons st sts)
    then have "execute r n p pv rest \<noteq> None" by (auto split: prod.splits)
    moreover have "\<not> (\<forall>k \<le> length rest. ?run (p + k) (lastc pv (take k rest)) (drop k rest) = [])"
      using Cons by (auto intro: exI[of _ 0])
    ultimately show ?thesis by blast
  next
    case Nil
    show ?thesis
    proof (cases rest)
      case Nil': Nil
      with Nil show ?thesis by simp
    next
      case (Cons x xs)
      have "execute r n p pv rest = execute r n (Suc p) (Some x) xs"
        using Nil Cons by simp
      also have "\<dots> = None \<longleftrightarrow> (\<forall>k \<le> length xs. ?run (Suc p + k) (lastc (Some x) (take k xs)) (drop k xs) = [])"
        using "1.IH"[OF Nil Cons] .
      also have "\<dots> \<longleftrightarrow> (\<forall>k \<le> length rest. ?run (p + k) (lastc pv (take k rest)) (drop k rest) = [])"
      proof
        assume a: "\<forall>k \<le> length xs. ?run (Suc p + k) (lastc (Some x) (take k xs)) (drop k xs) = []"
        show "\<forall>k \<le> length rest. ?run (p + k) (lastc pv (take k rest)) (drop k rest) = []"
        proof (intro allI impI)
          fix k assume "k \<le> length rest"
          then show "?run (p + k) (lastc pv (take k rest)) (drop k rest) = []"
            using a[rule_format, of "k - 1"] Nil Cons by (cases k) auto
        qed
      next
        assume a: "\<forall>k \<le> length rest. ?run (p + k) (lastc pv (take k rest)) (drop k rest) = []"
        show "\<forall>k \<le> length xs. ?run (Suc p + k) (lastc (Some x) (take k xs)) (drop k xs) = []"
          using a[rule_format, of "Suc _"] Cons by auto
      qed
      finally show ?thesis .
    qed
  qed
qed

lemma execute_Some_sem:
  "execute r n p pv rest = Some m \<Longrightarrow>
     \<exists>pre w post cs'. rest = pre @ w @ post
       \<and> sem r (lastc pv pre) (p + length pre) w post (replicate (2 * (n + 1)) (- 1)) cs'
       \<and> m = cs'[0 := int (p + length pre), 1 := int (p + length pre + length w)]"
proof (induction r n p pv rest rule: execute.induct)
  case (1 r n p pv rest)
  show ?case
  proof (cases "run r ((p, pv, rest), replicate (2 * (n + 1)) (- 1))")
    case Nil
    with "1.prems" obtain x xs where rest: "rest = x # xs"
      and e: "execute r n (Suc p) (Some x) xs = Some m"
      by (auto split: list.splits)
    from "1.IH"[OF Nil rest e] obtain pre w post cs' where
      "xs = pre @ w @ post"
      "sem r (lastc (Some x) pre) (Suc p + length pre) w post (replicate (2 * (n + 1)) (- 1)) cs'"
      "m = cs'[0 := int (Suc p + length pre), 1 := int (Suc p + length pre + length w)]"
      by blast
    then show ?thesis using rest
      by (intro exI[of _ "x # pre"] exI[of _ w] exI[of _ post] exI[of _ cs']) simp
  next
    case (Cons st sts)
    obtain p' pv' r' cs' where st: "st = ((p', pv', r'), cs')" by (metis prod.exhaust)
    have mem: "((p', pv', r'), cs') \<in> set (run r ((p, pv, rest), replicate (2 * (n + 1)) (- 1)))"
      using Cons st by simp
    then obtain w where w: "rest = w @ r'" "p' = p + length w"
      "sem r pv p w r' (replicate (2 * (n + 1)) (- 1)) cs'"
      unfolding run_sem by blast
    have "m = cs'[0 := int p, 1 := int p']" using "1.prems" Cons st by simp
    with w show ?thesis
      by (intro exI[of _ "[]"] exI[of _ w] exI[of _ r'] exI[of _ cs']) simp
  qed
qed

lemma lastc_cursor:
  "pos \<le> length s \<Longrightarrow> (if pos = 0 then None else Some (s ! (pos - 1))) = lastc None (take pos s)"
  by (cases "pos = 0") (auto simp: lastc_def last_conv_nth min_def)

lemma doExecute_sem:
  assumes "doExecute r s pos = Some m" "pos \<le> length s"
  shows "sem_match r s m"
proof -
  from assms have "execute r (ncap r) pos (lastc None (take pos s)) (drop pos s) = Some m"
    by (simp add: doExecute_def lastc_cursor)
  from execute_Some_sem[OF this] obtain pre w post cs' where
    d: "drop pos s = pre @ w @ post" and
    s: "sem r (lastc (lastc None (take pos s)) pre) (pos + length pre) w post
          (replicate (2 * (ncap r + 1)) (- 1)) cs'" and
    m: "m = cs'[0 := int (pos + length pre), 1 := int (pos + length pre + length w)]"
    by blast
  have "s = (take pos s @ pre) @ w @ post" using d by (metis append_take_drop_id append.assoc)
  moreover have "length (take pos s @ pre) = pos + length pre" using assms(2) by simp
  ultimately show ?thesis unfolding sem_match_def using s m
    by (intro exI[of _ "take pos s @ pre"] exI[of _ w] exI[of _ post] exI[of _ cs']) simp
qed

lemma allMatches_pos:
  assumes "m \<in> set (allMatches r s pos prev)"
  shows "pos \<le> length s"
proof (rule ccontr)
  assume "\<not> pos \<le> length s"
  then have "allMatches r s pos prev = []" by (subst allMatches.simps) simp
  with assms show False by simp
qed

lemma allMatches_sem:
  "m \<in> set (allMatches r s pos prev) \<Longrightarrow> sem_match r s m"
proof (induction r s pos prev rule: allMatches.induct)
  case (1 r s pos prev)
  have le: "pos \<le> length s" using "1.prems" by (rule allMatches_pos)
  have ex: "doExecute r s pos \<noteq> None"
  proof
    assume "doExecute r s pos = None"
    then have "allMatches r s pos prev = []" using le by (subst allMatches.simps) simp
    with "1.prems" show False by simp
  qed
  then obtain m0 where ex: "doExecute r s pos = Some m0" by blast
  show ?case
  proof (cases "m0 ! 1 = int pos")
    case True
    have "allMatches r s pos prev = (if m0 ! 0 = prev then [] else [m0]) @ allMatches r s (pos + 1) (m0 ! 1)"
      using le ex True by (subst allMatches.simps) simp
    with "1.prems" have "m = m0 \<or> m \<in> set (allMatches r s (pos + 1) (m0 ! 1))"
      by (auto split: if_splits)
    then show ?thesis using "1.IH"(1)[OF le ex True] doExecute_sem[OF ex le] by blast
  next
    case False
    have "allMatches r s pos prev = m0 # allMatches r s (nat (m0 ! 1)) (m0 ! 1)"
      using le ex False by (subst allMatches.simps) simp
    with "1.prems" have "m = m0 \<or> m \<in> set (allMatches r s (nat (m0 ! 1)) (m0 ! 1))"
      by auto
    then show ?thesis using "1.IH"(2)[OF le ex False] doExecute_sem[OF ex le] by blast
  qed
qed

lemma MatchString_sem: "MatchString r s \<longleftrightarrow> (\<exists>pre w post cs'. s = pre @ w @ post
     \<and> sem r (lastc None pre) (length pre) w post (replicate (2 * (ncap r + 1)) (- 1)) cs')"
proof
  assume "MatchString r s"
  then obtain m where "doExecute r s 0 = Some m" by (auto simp: MatchString_def)
  from doExecute_sem[OF this] show "\<exists>pre w post cs'. s = pre @ w @ post
     \<and> sem r (lastc None pre) (length pre) w post (replicate (2 * (ncap r + 1)) (- 1)) cs'"
    unfolding sem_match_def by blast
next
  assume "\<exists>pre w post cs'. s = pre @ w @ post
     \<and> sem r (lastc None pre) (length pre) w post (replicate (2 * (ncap r + 1)) (- 1)) cs'"
  then obtain pre w post cs' where s: "s = pre @ w @ post"
    and m: "sem r (lastc None pre) (length pre) w post (replicate (2 * (ncap r + 1)) (- 1)) cs'"
    by blast
  have "((length pre + length w, lastc (lastc None pre) w, post), cs')
      \<in> set (run r ((0 + length pre, lastc None (take (length pre) s), drop (length pre) s),
           replicate (2 * (ncap r + 1)) (- 1)))"
    unfolding run_sem using s m by (intro exI[of _ w]) simp
  then have "\<not> (\<forall>k \<le> length s. run r ((0 + k, lastc None (take k s), drop k s),
      replicate (2 * (ncap r + 1)) (- 1)) = [])"
    using s by (intro notI) (auto dest!: spec[of _ "length pre"])
  then have "execute r (ncap r) 0 None s \<noteq> None"
    unfolding execute_None_iff .
  then show "MatchString r s" by (simp add: MatchString_def doExecute_def)
qed

lemma byte_eq_iff [simp]: "byte a = byte b \<longleftrightarrow> a = b"
  by (simp add: byte_def)

lemma in_class_single: "in_class (Class False [(c, c)]) x \<longleftrightarrow> x = c"
  by (auto simp: byte_def)

lemma sem_chr: "sem (chr c) pv p w post cs cs' \<longleftrightarrow> w = [c] \<and> cs' = cs"
  by (auto simp: chr_def in_class_single)

lemma sem_cat_Nil: "sem (cat []) pv p w post cs cs' \<longleftrightarrow> w = [] \<and> cs' = cs"
  by (simp add: cat_def)

lemma sem_cat_Cons: "sem (cat (a # as)) pv p w post cs cs' \<longleftrightarrow>
    (\<exists>w1 w2 cs1. w = w1 @ w2 \<and> sem a pv p w1 (w2 @ post) cs cs1
        \<and> sem (cat as) (lastc pv w1) (p + length w1) w2 post cs1 cs')"
  by (simp add: cat_def)

lemma sem_lit: "sem (lit v) pv p w post cs cs' \<longleftrightarrow> w = v \<and> cs' = cs"
proof (induction v arbitrary: pv p w cs)
  case Nil
  then show ?case by (simp add: lit_def sem_cat_Nil)
next
  case (Cons x v)
  have "sem (lit (x # v)) pv p w post cs cs' \<longleftrightarrow>
      (\<exists>w1 w2 cs1. w = w1 @ w2 \<and> sem (chr x) pv p w1 (w2 @ post) cs cs1
        \<and> sem (lit v) (lastc pv w1) (p + length w1) w2 post cs1 cs')"
    by (simp add: lit_def sem_cat_Cons)
  also have "\<dots> \<longleftrightarrow> w = x # v \<and> cs' = cs"
    unfolding Cons.IH sem_chr by auto
  finally show ?case .
qed

section \<open>Format detection\<close>

text \<open>A document with one underlined header among three markdown headers, and a
  document with no header at all.\<close>

definition mixed_doc :: string where
  "mixed_doc = ''# Changelog\<newline>\<newline>## 2.0.0\<newline>\<newline>Two\<newline>\<newline>1.5.0\<newline>-----\<newline>\<newline>Underlined\<newline>\<newline>## 1.0.0\<newline>\<newline>One\<newline>\<newline>### 0.9.0\<newline>\<newline>Old\<newline>''"

definition plain_doc :: string where
  "plain_doc = ''no headers here''"

lemma keep_needs_bracket:
  assumes "MatchString keepAChangelog c"
  shows "CHR ''['' \<in> set c"
proof -
  from assms obtain pre w post cs' where c: "c = pre @ w @ post"
    and s: "sem keepAChangelog (lastc None pre) (length pre) w post
        (replicate (2 * (ncap keepAChangelog + 1)) (- 1)) cs'"
    unfolding MatchString_sem by blast
  from s have "CHR ''['' \<in> set w"
    unfolding keepAChangelog_def sem_cat_Cons sem_chr by auto
  with c show ?thesis by simp
qed

lemma MatchString_FindAll: "MatchString r c \<longleftrightarrow> FindAllStringSubmatchIndex r c \<noteq> []"
proof (cases "doExecute r c 0")
  case None
  then show ?thesis
    by (simp add: MatchString_def FindAllStringSubmatchIndex_def allMatches.simps[of r c 0])
next
  case (Some m)
  from doExecute_bounds[OF Some] have "0 \<le> m ! 0" by simp
  with Some show ?thesis
    by (simp add: MatchString_def FindAllStringSubmatchIndex_def allMatches.simps[of r c 0])
qed

lemma patterns_distinct:
  "keepAChangelog \<noteq> underlineHeader" "keepAChangelog \<noteq> markdownHeader"
  "underlineHeader \<noteq> markdownHeader"
  by (simp_all add: keepAChangelog_def underlineHeader_def markdownHeader_def cat_def chr_def)

lemma mixed_doc_eval:
  "detectFormat mixed_doc = underlineHeader
   \<and> length (FindAllStringSubmatchIndex underlineHeader mixed_doc) = 1
   \<and> length (FindAllStringSubmatchIndex markdownHeader mixed_doc) = 3"
  by code_simp

lemma plain_doc_eval:
  "detectFormat plain_doc = markdownHeader
   \<and> FindAllStringSubmatchIndex markdownHeader plain_doc = []"
  by code_simp

text \<open>
  Claim C3. Without an explicit matcher the format detector picks the matcher by
  existence, first match wins: the Keep-a-Changelog pattern if it matches anywhere in the
  document (that is, if it has at least one match), else the underline pattern if it
  matches anywhere, else the markdown-header pattern, also when that one has no match at
  all. The three patterns are different values. A document where the underline pattern
  matches and the Keep-a-Changelog pattern does not (it cannot without a \<open>[\<close>) is
  classified as underline style, however many markdown headers it has: \<open>mixed_doc\<close> has one
  underlined header and three markdown headers.
\<close>

theorem detectFormat_priority:
  "pattern (Parse c) = detectFormat c
   \<and> (FindAllStringSubmatchIndex keepAChangelog c \<noteq> [] \<longrightarrow> detectFormat c = keepAChangelog)
   \<and> (FindAllStringSubmatchIndex keepAChangelog c = []
        \<and> FindAllStringSubmatchIndex underlineHeader c \<noteq> [] \<longrightarrow> detectFormat c = underlineHeader)
   \<and> (FindAllStringSubmatchIndex keepAChangelog c = []
        \<and> FindAllStringSubmatchIndex underlineHeader c = [] \<longrightarrow> detectFormat c = markdownHeader)
   \<and> (CHR ''['' \<notin> set c \<and> FindAllStringSubmatchIndex underlineHeader c \<noteq> []
        \<longrightarrow> detectFormat c = underlineHeader)
   \<and> keepAChangelog \<noteq> underlineHeader \<and> keepAChangelog \<noteq> markdownHeader
   \<and> underlineHeader \<noteq> markdownHeader
   \<and> detectFormat mixed_doc = underlineHeader
   \<and> length (FindAllStringSubmatchIndex underlineHeader mixed_doc) = 1
   \<and> length (FindAllStringSubmatchIndex markdownHeader mixed_doc) = 3
   \<and> detectFormat plain_doc = markdownHeader
   \<and> FindAllStringSubmatchIndex markdownHeader plain_doc = []"
  using keep_needs_bracket[of c] mixed_doc_eval plain_doc_eval patterns_distinct
  by (auto simp: detectFormat_def Parse_def MatchString_FindAll)

theorem detectFormat_priority_witness:
  "CHR ''['' \<notin> set mixed_doc \<and> FindAllStringSubmatchIndex keepAChangelog mixed_doc = []
   \<and> FindAllStringSubmatchIndex underlineHeader mixed_doc \<noteq> []
   \<and> pattern (Parse mixed_doc) = underlineHeader
   \<and> FindAllStringSubmatchIndex underlineHeader plain_doc = []
   \<and> pattern (Parse plain_doc) = markdownHeader"
proof -
  have a: "CHR ''['' \<notin> set mixed_doc" by code_simp
  have b: "FindAllStringSubmatchIndex keepAChangelog mixed_doc = []" by code_simp
  have c: "FindAllStringSubmatchIndex underlineHeader mixed_doc \<noteq> []" by code_simp
  have d: "FindAllStringSubmatchIndex underlineHeader plain_doc = []" by code_simp
  have e: "FindAllStringSubmatchIndex keepAChangelog plain_doc = []" by code_simp
  from detectFormat_priority[of mixed_doc] detectFormat_priority[of plain_doc] a b c d e
  show ?thesis by simp
qed

section \<open>The prefix that the version locator strips\<close>

text \<open>
  Claim C8. \<open>LineForVersion\<close> returns \<open>-1\<close> at once for the empty token. For a token
  that is not empty the claim says that exactly one leading \<open>v\<close> or \<open>V\<close> is stripped,
  never more than one character. The code strips a leading \<open>v\<close> and then a leading \<open>V\<close>:
  from \<open>vV1.0.0\<close> it removes two characters and searches for \<open>1.0.0\<close>, which it finds in
  the header \<open>## 1.0.0\<close>, where the search for \<open>V1.0.0\<close> finds nothing.
\<close>

theorem LineForVersion_strips_v_then_V:
  "LineForVersion p [] = Some (- 1)
   \<and> TrimPrefix (TrimPrefix ''vV1.0.0'' ''v'') ''V'' = ''1.0.0''
   \<and> LineForVersion (Parse ''## 1.0.0'') ''vV1.0.0'' = Some 0
   \<and> scanLines ''V1.0.0'' 0 (Split ''## 1.0.0'') = - 1"
proof (intro conjI)
  show "LineForVersion p [] = Some (- 1)" by (simp add: LineForVersion_def)
  show "TrimPrefix (TrimPrefix ''vV1.0.0'' ''v'') ''V'' = ''1.0.0''" by code_simp
  show "LineForVersion (Parse ''## 1.0.0'') ''vV1.0.0'' = Some 0" by code_simp
  show "scanLines ''V1.0.0'' 0 (Split ''## 1.0.0'') = - 1" by code_simp
qed

text \<open>
  Claim C10. \<open>RawContentURL\<close> fails with an error when the path of the repository URL has
  fewer than two segments and when its host is neither \<open>github.com\<close> nor \<open>gitlab.com\<close>;
  the messages of the two errors differ whatever the URL and the host are. A failure of
  \<open>RawContentURL\<close> is the result of \<open>FetchAndParse\<close>, which then has sent no request.
  For a supported host the result is the raw-content URL of the host's template.
  With \<open>url.Parse\<close> on plain addresses, the repository \<open>https://github.com/a/b.git\<close> and
  the file \<open>CHANGELOG.md\<close> give \<open>https://raw.githubusercontent.com/a/b/HEAD/CHANGELOG.md\<close>,
  and a repository at \<open>bitbucket.org\<close> gives the error of an unsupported host.
\<close>

theorem RawContentURL_failures:
  "(urlParse (TrimSuffix (TrimSuffix repoURL ''.git'') ''/'') = Inr u \<longrightarrow>
     (length (SplitN (TrimPrefix (Path u) ''/'') 3) < 2 \<longrightarrow>
        RawContentURL urlParse repoURL filename
          = Inl (''cannot parse owner/repo from '' @ TrimSuffix (TrimSuffix repoURL ''.git'') ''/''))
   \<and> (2 \<le> length (SplitN (TrimPrefix (Path u) ''/'') 3)
        \<and> Host u \<noteq> ''github.com'' \<and> Host u \<noteq> ''gitlab.com'' \<longrightarrow>
        RawContentURL urlParse repoURL filename
          = Inl (''unsupported host '' @ Host u
                 @ '' (only github.com and gitlab.com are supported)''))
   \<and> (2 \<le> length (SplitN (TrimPrefix (Path u) ''/'') 3) \<and> Host u = ''github.com'' \<longrightarrow>
        RawContentURL urlParse repoURL filename
          = Inr (''https://raw.githubusercontent.com/'' @ SplitN (TrimPrefix (Path u) ''/'') 3 ! 0
                 @ ''/'' @ SplitN (TrimPrefix (Path u) ''/'') 3 ! 1 @ ''/HEAD/'' @ filename))
   \<and> (2 \<le> length (SplitN (TrimPrefix (Path u) ''/'') 3) \<and> Host u = ''gitlab.com'' \<longrightarrow>
        RawContentURL urlParse repoURL filename
          = Inr (''https://gitlab.com/'' @ SplitN (TrimPrefix (Path u) ''/'') 3 ! 0
                 @ ''/'' @ SplitN (TrimPrefix (Path u) ''/'') 3 ! 1 @ ''/-/raw/HEAD/''
                 @ filename)))
   \<and> ''cannot parse owner/repo from '' @ x
        \<noteq> ''unsupported host '' @ h @ '' (only github.com and gitlab.com are supported)''
   \<and> (RawContentURL urlParse repoURL filename = Inl e \<longrightarrow>
        FetchAndParse net urlParse repoURL filename = (Inl e, []))
   \<and> RawContentURL urlParse_plain ''https://github.com/a/b.git'' ''CHANGELOG.md''
        = Inr ''https://raw.githubusercontent.com/a/b/HEAD/CHANGELOG.md''
   \<and> RawContentURL urlParse_plain ''https://bitbucket.org/a/b'' ''x''
        = Inl ''unsupported host bitbucket.org (only github.com and gitlab.com are supported)''"
proof (intro conjI)
  show "RawContentURL urlParse_plain ''https://github.com/a/b.git'' ''CHANGELOG.md''
        = Inr ''https://raw.githubusercontent.com/a/b/HEAD/CHANGELOG.md''"
    by code_simp
  show "RawContentURL urlParse_plain ''https://bitbucket.org/a/b'' ''x''
        = Inl ''unsupported host bitbucket.org (only github.com and gitlab.com are supported)''"
    by code_simp
qed (auto simp: RawContentURL_def FetchAndParse_def Let_def)

theorem RawContentURL_failures_witness:
  "RawContentURL urlParse_plain ''https://bitbucket.org/owner/repo'' ''CHANGELOG.md''
     = Inl ''unsupported host bitbucket.org (only github.com and gitlab.com are supported)''
   \<and> FetchAndParse \<lparr>newRequest = (\<lambda>u. None), doRequest = (\<lambda>u. Inr (200, Inr []))\<rparr>
        urlParse_plain ''https://bitbucket.org/owner/repo'' ''CHANGELOG.md''
     = (Inl ''unsupported host bitbucket.org (only github.com and gitlab.com are supported)'', [])
   \<and> RawContentURL urlParse_plain ''https://github.com/'' ''CHANGELOG.md''
     = Inl ''cannot parse owner/repo from https://github.com''
   \<and> RawContentURL urlParse_plain ''https://gitlab.com/inkscape/inkscape.git'' ''NEWS.md''
     = Inr ''https://gitlab.com/inkscape/inkscape/-/raw/HEAD/NEWS.md''
   \<and> RawContentURL urlParse_plain ''https://github.com/lodash/lodash/'' ''CHANGELOG.md''
     = Inr ''https://raw.githubusercontent.com/lodash/lodash/HEAD/CHANGELOG.md''"
proof -
  let ?net = "\<lparr>newRequest = (\<lambda>u. None), doRequest = (\<lambda>u. Inr (200, Inr []))\<rparr>"
  have u1: "urlParse_plain (TrimSuffix (TrimSuffix ''https://bitbucket.org/owner/repo'' ''.git'') ''/'') = Inr \<lparr>Host = ''bitbucket.org'', Path = ''/owner/repo''\<rparr>"
    by code_simp
  have u2: "urlParse_plain (TrimSuffix (TrimSuffix ''https://github.com/'' ''.git'') ''/'') = Inr \<lparr>Host = ''github.com'', Path = []\<rparr>"
    by code_simp
  have u3: "urlParse_plain (TrimSuffix (TrimSuffix ''https://gitlab.com/inkscape/inkscape.git'' ''.git'') ''/'') = Inr \<lparr>Host = ''gitlab.com'', Path = ''/inkscape/inkscape''\<rparr>"
    by code_simp
  have u4: "urlParse_plain (TrimSuffix (TrimSuffix ''https://github.com/lodash/lodash/'' ''.git'') ''/'') = Inr \<lparr>Host = ''github.com'', Path = ''/lodash/lodash''\<rparr>"
    by code_simp
  have s1: "SplitN (TrimPrefix ''/owner/repo'' ''/'') 3 = [''owner'', ''repo'']"
    by code_simp
  have s2: "SplitN (TrimPrefix [] ''/'') 3 = [[]]"
    by code_simp
  have s3: "SplitN (TrimPrefix ''/inkscape/inkscape'' ''/'') 3 = [''inkscape'', ''inkscape'']"
    by code_simp
  have s4: "SplitN (TrimPrefix ''/lodash/lodash'' ''/'') 3 = [''lodash'', ''lodash'']"
    by code_simp
  have t: "TrimSuffix (TrimSuffix ''https://github.com/'' ''.git'') ''/'' = ''https://github.com''"
    by code_simp
  note a = RawContentURL_failures[where urlParse = urlParse_plain and net = ?net
      and repoURL = "''https://bitbucket.org/owner/repo''" and u = "\<lparr>Host = ''bitbucket.org'', Path = ''/owner/repo''\<rparr>"
      and filename = "''CHANGELOG.md''"
      and e = "''unsupported host bitbucket.org (only github.com and gitlab.com are supported)''"]
  note b = RawContentURL_failures[where urlParse = urlParse_plain
      and repoURL = "''https://github.com/''" and u = "\<lparr>Host = ''github.com'', Path = []\<rparr>" and filename = "''CHANGELOG.md''"]
  note c = RawContentURL_failures[where urlParse = urlParse_plain
      and repoURL = "''https://gitlab.com/inkscape/inkscape.git''" and u = "\<lparr>Host = ''gitlab.com'', Path = ''/inkscape/inkscape''\<rparr>"
      and filename = "''NEWS.md''"]
  note d = RawContentURL_failures[where urlParse = urlParse_plain
      and repoURL = "''https://github.com/lodash/lodash/''" and u = "\<lparr>Host = ''github.com'', Path = ''/lodash/lodash''\<rparr>"
      and filename = "''CHANGELOG.md''"]
  from a u1 s1 have 1: "RawContentURL urlParse_plain ''https://bitbucket.org/owner/repo'' ''CHANGELOG.md''
     = Inl ''unsupported host bitbucket.org (only github.com and gitlab.com are supported)''"
    by simp
  from a 1 have 2: "FetchAndParse ?net urlParse_plain ''https://bitbucket.org/owner/repo'' ''CHANGELOG.md''
     = (Inl ''unsupported host bitbucket.org (only github.com and gitlab.com are supported)'', [])"
    by blast
  from b u2 s2 t have 3: "RawContentURL urlParse_plain ''https://github.com/'' ''CHANGELOG.md''
     = Inl ''cannot parse owner/repo from https://github.com''"
    by simp
  from c u3 s3 have 4: "RawContentURL urlParse_plain ''https://gitlab.com/inkscape/inkscape.git'' ''NEWS.md''
     = Inr ''https://gitlab.com/inkscape/inkscape/-/raw/HEAD/NEWS.md''"
    by simp
  from d u4 s4 have 5: "RawContentURL urlParse_plain ''https://github.com/lodash/lodash/'' ''CHANGELOG.md''
     = Inr ''https://raw.githubusercontent.com/lodash/lodash/HEAD/CHANGELOG.md''"
    by simp
  from 1 2 3 4 5 show ?thesis by blast
qed

section \<open>The version locator\<close>



definition strip_v :: "string \<Rightarrow> string" where
  "strip_v v = TrimPrefix (TrimPrefix v ''v'') ''V''"


definition range_doc :: string where
  "range_doc = ''Supports versions 1.0.0..2.0.0\<newline>\<newline>## [2.0.0]\<newline>\<newline>Body''"

definition range_header_doc :: string where
  "range_header_doc = ''## 2.0.0 replaces 2.0.0..2.0.5\<newline>\<newline>## [2.0.0]\<newline>\<newline>Body''"






lemma rangeRe_iff:
  "MatchString (rangeRe tok) line \<longleftrightarrow> (\<exists>pre post. line = pre @ tok @ ''..'' @ post)"
  unfolding MatchString_sem rangeRe_def sem_cat_Cons sem_cat_Nil sem_lit sem_chr
  by auto

lemma scanLines_found:
  "scanLines v i ls = k \<Longrightarrow> k \<noteq> - 1 \<Longrightarrow>
     \<exists>j < length ls. k = i + int j \<and> containsVersion (ls ! j) (lit v)
        \<and> \<not> MatchString (rangeRe v) (ls ! j)"
proof (induction ls arbitrary: i)
  case Nil
  then show ?case by simp
next
  case (Cons l ls)
  show ?case
  proof (cases "scanLines v i (l # ls) = scanLines v (i + 1) ls")
    case True
    with Cons.prems have "scanLines v (i + 1) ls = k" by simp
    from Cons.IH[OF this Cons.prems(2)] obtain j where "j < length ls" "k = i + 1 + int j"
      "containsVersion (ls ! j) (lit v)" "\<not> MatchString (rangeRe v) (ls ! j)" by blast
    then show ?thesis by (intro exI[of _ "Suc j"]) auto
  next
    case False
    then have "containsVersion l (lit v)" "\<not> MatchString (rangeRe v) l" "scanLines v i (l # ls) = i"
      by (auto split: if_splits)
    with Cons.prems show ?thesis by (intro exI[of _ 0]) auto
  qed
qed

lemma LineForVersion_found:
  assumes "LineForVersion p v = Some n" "0 \<le> n"
  shows "nat n < length (Split (content p))
     \<and> containsVersion (Split (content p) ! nat n) (lit (strip_v v))
     \<and> \<not> MatchString (rangeRe (strip_v v)) (Split (content p) ! nat n)"
proof -
  from assms have ne: "v \<noteq> []" by (auto simp: LineForVersion_def)
  with assms(1) have eq: "scanLines (strip_v v) 0 (Split (content p)) = n"
    by (auto simp: LineForVersion_def strip_v_def Let_def split: if_splits)
  from scanLines_found[OF eq] assms(2) show ?thesis by auto
qed



text \<open>
  Claim C5. The version locator discards every line in which the searched token is
  immediately followed by two dots: the line that \<open>LineForVersion\<close> returns never has
  such an occurrence. On the document of scenario D the search for \<open>2.0.0\<close> passes line
  0 and returns line 2; a first header that mentions the range \<open>2.0.0..2.0.5\<close> is
  discarded as well.
\<close>

theorem LineForVersion_skips_ranges:
  "(LineForVersion p v = Some n \<and> 0 \<le> n \<longrightarrow>
      \<not> (\<exists>pre post. Split (content p) ! nat n = pre @ strip_v v @ ''..'' @ post))
   \<and> LineForVersion (Parse range_doc) ''2.0.0'' = Some 2
   \<and> LineForVersion (Parse range_header_doc) ''2.0.0'' = Some 2"
proof (intro conjI impI)
  assume "LineForVersion p v = Some n \<and> 0 \<le> n"
  then have "LineForVersion p v = Some n" "0 \<le> n" by simp_all
  from LineForVersion_found[OF this]
  show "\<not> (\<exists>pre post. Split (content p) ! nat n = pre @ strip_v v @ ''..'' @ post)"
    unfolding rangeRe_iff by blast
next
  show "LineForVersion (Parse range_doc) ''2.0.0'' = Some 2" by code_simp
  show "LineForVersion (Parse range_header_doc) ''2.0.0'' = Some 2" by code_simp
qed

theorem LineForVersion_skips_ranges_witness:
  "LineForVersion (Parse range_header_doc) ''2.0.0'' = Some 2
   \<and> Split (content (Parse range_header_doc)) ! 0 = ''## 2.0.0 replaces '' @ ''2.0.0'' @ ''..'' @ ''2.0.5''
   \<and> \<not> (\<exists>pre post. Split (content (Parse range_header_doc)) ! 2 = pre @ ''2.0.0'' @ ''..'' @ post)"
proof -
  have a: "LineForVersion (Parse range_header_doc) ''2.0.0'' = Some 2" by code_simp
  have b: "strip_v ''2.0.0'' = ''2.0.0''" by code_simp
  have c: "Split (content (Parse range_header_doc)) ! 0 = ''## 2.0.0 replaces '' @ ''2.0.0'' @ ''..'' @ ''2.0.5''"
    by code_simp
  from LineForVersion_skips_ranges[of "Parse range_header_doc" "''2.0.0''" 2] a b c
  show ?thesis by simp
qed

section \<open>The shape of the headers\<close>

text \<open>
  The specification's side of the header patterns: the shape of a version token of the
  markdown and underline patterns (some characters, a dot, some characters and an
  alphanumeric character, all of them of \<open>[\w.+-]\<close>), the shape of a date, and the part of
  a token after its first dot. \<open>caps_of\<close> lists the groups of a pattern.
\<close>

definition vtoken_shape :: "string \<Rightarrow> bool" where
  "vtoken_shape t = (\<exists>X Y z. t = X @ CHR ''.'' # Y @ [z] \<and> X \<noteq> [] \<and> Y \<noteq> []
     \<and> list_all (in_class tokch) X \<and> list_all (in_class tokch) Y \<and> in_class alnum z)"

definition isodate_shape :: "string \<Rightarrow> bool" where
  "isodate_shape d = (\<exists>y m dd. d = y @ CHR ''-'' # m @ CHR ''-'' # dd
     \<and> length y = 4 \<and> length m = 2 \<and> length dd = 2
     \<and> list_all (in_class digit) y \<and> list_all (in_class digit) m \<and> list_all (in_class digit) dd)"

definition after_first_dot :: "string \<Rightarrow> string" where
  "after_first_dot t = tl (dropWhile (\<lambda>c. c \<noteq> CHR ''.'') t)"

definition hash :: cclass where
  "hash = Class False [(CHR ''#'', CHR ''#'')]"

fun caps_of :: "regex \<Rightarrow> nat set" where
  "caps_of (Cap n a) = insert n (caps_of a)"
| "caps_of (Opt a) = caps_of a"
| "caps_of (Seq a b) = caps_of a \<union> caps_of b"
| "caps_of _ = {}"

lemma sem_vtoken: "sem vtoken pv p w post cs cs' \<longleftrightarrow> vtoken_shape w \<and> cs' = cs"
proof
  assume "sem vtoken pv p w post cs cs'"
  then obtain X d Y z where "w = X @ d @ Y @ z" "list_all (in_class tokch) X" "1 \<le> length X"
    "d = [CHR ''.'']" "list_all (in_class tokch) Y" "1 \<le> length Y"
    "\<exists>x. z = [x] \<and> in_class alnum x" "cs' = cs"
    unfolding vtoken_def sem_cat_Cons sem_cat_Nil sem_chr by auto
  then show "vtoken_shape w \<and> cs' = cs"
    unfolding vtoken_shape_def by (intro conjI exI[of _ X] exI[of _ Y]) auto
next
  assume "vtoken_shape w \<and> cs' = cs"
  then obtain X Y z where w: "w = X @ CHR ''.'' # Y @ [z]" "X \<noteq> []" "Y \<noteq> []"
    "list_all (in_class tokch) X" "list_all (in_class tokch) Y" "in_class alnum z" and cs: "cs' = cs"
    unfolding vtoken_shape_def by blast
  have 1: "sem (Rep tokch 1 None) pv p X ((CHR ''.'' # Y @ [z]) @ post) cs cs"
    using w by (cases X) auto
  have 2: "sem (chr CHR ''.'') (lastc pv X) (p + length X) [CHR ''.''] ((Y @ [z]) @ post) cs cs"
    by (simp add: sem_chr)
  have 3: "sem (Rep tokch 1 None) (Some CHR ''.'') (p + length X + 1) Y ([z] @ post) cs cs"
    using w by (cases Y) auto
  have 4: "sem (One alnum) (lastc (Some CHR ''.'') Y) (p + length X + 1 + length Y) [z] post cs cs"
    using w by simp
  have "sem (cat [Rep tokch 1 None, chr CHR ''.'', Rep tokch 1 None, One alnum]) pv p
      (X @ [CHR ''.''] @ Y @ [z] @ []) post cs cs"
    unfolding sem_cat_Cons sem_cat_Nil
    apply (rule exI[of _ X], rule exI[of _ "[CHR ''.''] @ Y @ [z] @ []"], rule exI[of _ cs])
    apply (intro conjI refl)
    using 1 apply simp
    apply (rule exI[of _ "[CHR ''.'']"], rule exI[of _ "Y @ [z] @ []"], rule exI[of _ cs])
    apply (intro conjI refl)
    using 2 apply simp
    apply (rule exI[of _ Y], rule exI[of _ "[z] @ []"], rule exI[of _ cs])
    apply (intro conjI refl)
    using 3 apply simp
    apply (rule exI[of _ "[z]"], rule exI[of _ "[]"], rule exI[of _ cs])
    using 4 apply simp
    done
  then show "sem vtoken pv p w post cs cs'" using w cs by (simp add: vtoken_def)
qed

lemma length_dropWhile_append: "length (dropWhile P ys) \<le> length (dropWhile P (xs @ ys))"
  using length_dropWhile_le[of P ys] by (induction xs) auto

lemma vtoken_shape_dot:
  assumes "vtoken_shape t"
  shows "CHR ''.'' \<in> set t \<and> 2 \<le> length (after_first_dot t) \<and> in_class alnum (last t)
     \<and> list_all (in_class tokch) (butlast t) \<and> 4 \<le> length t"
proof -
  from assms obtain X Y z where t: "t = X @ CHR ''.'' # Y @ [z]" "X \<noteq> []" "Y \<noteq> []"
    "list_all (in_class tokch) X" "list_all (in_class tokch) Y" "in_class alnum z"
    unfolding vtoken_shape_def by blast
  have "length (dropWhile (\<lambda>c. c \<noteq> CHR ''.'') (CHR ''.'' # Y @ [z]))
      \<le> length (dropWhile (\<lambda>c. c \<noteq> CHR ''.'') (X @ CHR ''.'' # Y @ [z]))"
    by (rule length_dropWhile_append)
  then have "length Y + 2 \<le> length (dropWhile (\<lambda>c. c \<noteq> CHR ''.'') t)" using t by simp
  then have "2 \<le> length (after_first_dot t)" using t(3)
    by (cases Y) (auto simp: after_first_dot_def)
  moreover have "in_class tokch CHR ''.''" by (simp add: tokch_def byte_def)
  then have "list_all (in_class tokch) (butlast t)"
    using t by (simp add: butlast_append)
  moreover have "4 \<le> length t" using t by (cases X; cases Y) auto
  ultimately show ?thesis using t by auto
qed

lemma sem_isodate: "sem isodate pv p w post cs cs' \<longleftrightarrow> isodate_shape w \<and> cs' = cs"
proof
  assume "sem isodate pv p w post cs cs'"
  then obtain y d1 m d2 dd where "w = y @ d1 @ m @ d2 @ dd" "list_all (in_class digit) y" "length y = 4"
    "d1 = [CHR ''-'']" "list_all (in_class digit) m" "length m = 2" "d2 = [CHR ''-'']"
    "list_all (in_class digit) dd" "length dd = 2" "cs' = cs"
    unfolding isodate_def sem_cat_Cons sem_cat_Nil sem_chr by auto
  then show "isodate_shape w \<and> cs' = cs"
    unfolding isodate_shape_def by (intro conjI exI[of _ y] exI[of _ m] exI[of _ dd]) auto
next
  assume "isodate_shape w \<and> cs' = cs"
  then obtain y m dd where w: "w = y @ CHR ''-'' # m @ CHR ''-'' # dd"
     "length y = 4" "length m = 2" "length dd = 2"
     "list_all (in_class digit) y" "list_all (in_class digit) m" "list_all (in_class digit) dd"
     and cs: "cs' = cs"
    unfolding isodate_shape_def by blast
  have "sem (cat [Rep digit 4 (Some 4), chr CHR ''-'', Rep digit 2 (Some 2), chr CHR ''-'',
     Rep digit 2 (Some 2)]) pv p (y @ [CHR ''-''] @ m @ [CHR ''-''] @ dd @ []) post cs cs"
    unfolding sem_cat_Cons sem_cat_Nil sem_chr
    apply (rule exI[of _ y], rule exI[of _ "[CHR ''-''] @ m @ [CHR ''-''] @ dd @ []"], rule exI[of _ cs])
    apply (intro conjI refl)
    using w apply simp
    apply (rule exI[of _ "[CHR ''-'']"], rule exI[of _ "m @ [CHR ''-''] @ dd @ []"], rule exI[of _ cs])
    apply (intro conjI refl)
    apply (rule exI[of _ m], rule exI[of _ "[CHR ''-''] @ dd @ []"], rule exI[of _ cs])
    apply (intro conjI refl)
    using w apply simp
    apply (rule exI[of _ "[CHR ''-'']"], rule exI[of _ "dd @ []"], rule exI[of _ cs])
    apply (intro conjI refl)
    apply (rule exI[of _ dd], rule exI[of _ "[]"], rule exI[of _ cs])
    using w apply simp
    done
  then show "sem isodate pv p w post cs cs'" using w cs by (simp add: isodate_def)
qed

lemma sem_frame:
  "sem r pv p w post cs cs' \<Longrightarrow> length cs' = length cs
     \<and> (\<forall>i. (\<forall>n \<in> caps_of r. i \<noteq> 2 * n \<and> i \<noteq> 2 * n + 1) \<longrightarrow> cs' ! i = cs ! i)"
proof (induction r arbitrary: pv p w post cs cs')
  case (Cap n a)
  from Cap.prems obtain cs0 where a: "sem a pv p w post cs cs0"
    and cs': "cs' = cs0[2 * n := int p, 2 * n + 1 := int (p + length w)]" by auto
  from Cap.IH[OF a] show ?case unfolding cs' by auto
next
  case (Seq a b)
  from Seq.prems obtain w1 w2 cs1 where "sem a pv p w1 (w2 @ post) cs cs1"
    "sem b (lastc pv w1) (p + length w1) w2 post cs1 cs'" by auto
  from Seq.IH(1)[OF this(1)] Seq.IH(2)[OF this(2)] show ?case by auto
next
  case (Opt a)
  then show ?case by auto
qed auto

lemma caps_of_cat: "caps_of (cat rs) = (\<Union>r \<in> set rs. caps_of r)"
  by (induction rs) (auto simp: cat_def)

lemma sem_cat_Bol:
  "sem (cat (Bol # as)) pv p w post cs cs' \<longleftrightarrow>
     (pv = None \<or> pv = Some nl) \<and> sem (cat as) pv p w post cs cs'"
  unfolding sem_cat_Cons by auto

lemma sem_cat_One:
  "sem (cat (One c # as)) pv p w post cs cs' \<longleftrightarrow>
     (\<exists>x w2. w = x # w2 \<and> in_class c x \<and> sem (cat as) (Some x) (Suc p) w2 post cs cs')"
proof
  assume "sem (cat (One c # as)) pv p w post cs cs'"
  then show "\<exists>x w2. w = x # w2 \<and> in_class c x \<and> sem (cat as) (Some x) (Suc p) w2 post cs cs'"
    unfolding sem_cat_Cons by auto
next
  assume "\<exists>x w2. w = x # w2 \<and> in_class c x \<and> sem (cat as) (Some x) (Suc p) w2 post cs cs'"
  then obtain x w2 where "w = x # w2" "in_class c x" "sem (cat as) (Some x) (Suc p) w2 post cs cs'"
    by blast
  then show "sem (cat (One c # as)) pv p w post cs cs'"
    unfolding sem_cat_Cons by (intro exI[of _ "[x]"] exI[of _ w2] exI[of _ cs]) simp
qed

lemma sem_cat_chr:
  "sem (cat (chr c # as)) pv p w post cs cs' \<longleftrightarrow>
     (\<exists>w2. w = c # w2 \<and> sem (cat as) (Some c) (Suc p) w2 post cs cs')"
  unfolding chr_def sem_cat_One by (auto simp: in_class_single)

lemma sem_cat_Rep:
  "sem (cat (Rep c lo hi # as)) pv p w post cs cs' \<longleftrightarrow>
     (\<exists>w1 w2. w = w1 @ w2 \<and> list_all (in_class c) w1 \<and> lo \<le> length w1
        \<and> (case hi of None \<Rightarrow> True | Some h \<Rightarrow> length w1 \<le> h)
        \<and> sem (cat as) (lastc pv w1) (p + length w1) w2 post cs cs')"
  unfolding sem_cat_Cons by auto

lemma sem_cat_Cap:
  "sem (cat (Cap n a # as)) pv p w post cs cs' \<longleftrightarrow>
     (\<exists>w1 w2 cs0. w = w1 @ w2 \<and> sem a pv p w1 (w2 @ post) cs cs0
        \<and> sem (cat as) (lastc pv w1) (p + length w1) w2 post
             (cs0[2 * n := int p, 2 * n + 1 := int (p + length w1)]) cs')"
  unfolding sem_cat_Cons by auto

lemma sem_cat_Opt:
  "sem (cat (Opt a # as)) pv p w post cs cs' \<longleftrightarrow>
     (\<exists>w1 w2 cs1. w = w1 @ w2 \<and> sem a pv p w1 (w2 @ post) cs cs1
        \<and> sem (cat as) (lastc pv w1) (p + length w1) w2 post cs1 cs')
     \<or> sem (cat as) pv p w post cs cs'"
proof
  assume "sem (cat (Opt a # as)) pv p w post cs cs'"
  then show "(\<exists>w1 w2 cs1. w = w1 @ w2 \<and> sem a pv p w1 (w2 @ post) cs cs1
        \<and> sem (cat as) (lastc pv w1) (p + length w1) w2 post cs1 cs')
     \<or> sem (cat as) pv p w post cs cs'"
    unfolding sem_cat_Cons by auto
next
  assume "(\<exists>w1 w2 cs1. w = w1 @ w2 \<and> sem a pv p w1 (w2 @ post) cs cs1
        \<and> sem (cat as) (lastc pv w1) (p + length w1) w2 post cs1 cs')
     \<or> sem (cat as) pv p w post cs cs'"
  then show "sem (cat (Opt a # as)) pv p w post cs cs'"
  proof
    assume "\<exists>w1 w2 cs1. w = w1 @ w2 \<and> sem a pv p w1 (w2 @ post) cs cs1
        \<and> sem (cat as) (lastc pv w1) (p + length w1) w2 post cs1 cs'"
    then show ?thesis unfolding sem_cat_Cons by auto
  next
    assume "sem (cat as) pv p w post cs cs'"
    then show ?thesis
      unfolding sem_cat_Cons by (intro exI[of _ "[]"] exI[of _ w] exI[of _ cs]) simp
  qed
qed

lemma sem_cat_Optchr:
  "sem (cat (Opt (chr c) # as)) pv p w post cs cs' \<longleftrightarrow>
     (\<exists>v w2. w = v @ w2 \<and> (v = [c] \<or> v = [])
        \<and> sem (cat as) (lastc pv v) (p + length v) w2 post cs cs')"
proof
  assume "sem (cat (Opt (chr c) # as)) pv p w post cs cs'"
  then consider w1 w2 cs1 where "w = w1 @ w2" "sem (chr c) pv p w1 (w2 @ post) cs cs1"
      "sem (cat as) (lastc pv w1) (p + length w1) w2 post cs1 cs'"
    | "sem (cat as) pv p w post cs cs'"
    unfolding sem_cat_Opt by blast
  then show "\<exists>v w2. w = v @ w2 \<and> (v = [c] \<or> v = [])
        \<and> sem (cat as) (lastc pv v) (p + length v) w2 post cs cs'"
  proof cases
    case 1
    then show ?thesis unfolding sem_chr by (intro exI[of _ "[c]"] exI[of _ w2]) auto
  next
    case 2
    then show ?thesis by (intro exI[of _ "[]"] exI[of _ w]) simp
  qed
next
  assume "\<exists>v w2. w = v @ w2 \<and> (v = [c] \<or> v = [])
        \<and> sem (cat as) (lastc pv v) (p + length v) w2 post cs cs'"
  then obtain v w2 where v: "w = v @ w2" "v = [c] \<or> v = []"
    "sem (cat as) (lastc pv v) (p + length v) w2 post cs cs'" by blast
  from v(2) show "sem (cat (Opt (chr c) # as)) pv p w post cs cs'"
  proof
    assume "v = [c]"
    with v have "\<exists>w1 w2 cs1. w = w1 @ w2 \<and> sem (chr c) pv p w1 (w2 @ post) cs cs1
        \<and> sem (cat as) (lastc pv w1) (p + length w1) w2 post cs1 cs'"
      unfolding sem_chr by (intro exI[of _ "[c]"] exI[of _ w2] exI[of _ cs]) simp
    then show ?thesis unfolding sem_cat_Opt by blast
  next
    assume "v = []"
    with v show ?thesis unfolding sem_cat_Opt by simp
  qed
qed

lemma sem_cat_Cap_plain:
  assumes "\<And>pv p w post cs cs'. sem a pv p w post cs cs' \<longleftrightarrow> P w \<and> cs' = cs"
  shows "sem (cat (Cap n a # as)) pv p w post cs cs' \<longleftrightarrow>
     (\<exists>g w2. w = g @ w2 \<and> P g
        \<and> sem (cat as) (lastc pv g) (p + length g) w2 post
             (cs[2 * n := int p, 2 * n + 1 := int (p + length g)]) cs')"
  unfolding sem_cat_Cap assms by auto

lemma sem_Rep_plain:
  "sem (Rep c lo hi) pv p w post cs cs' \<longleftrightarrow>
     (list_all (in_class c) w \<and> lo \<le> length w
        \<and> (case hi of None \<Rightarrow> True | Some h \<Rightarrow> length w \<le> h)) \<and> cs' = cs"
  by auto

lemmas sem_cat_Cap_vtoken = sem_cat_Cap_plain[of vtoken vtoken_shape, OF sem_vtoken]
lemmas sem_cat_Cap_isodate = sem_cat_Cap_plain[of isodate isodate_shape, OF sem_isodate]
lemmas sem_cat_Cap_Rep = sem_cat_Cap_plain[of "Rep c lo hi" for c lo hi, OF sem_Rep_plain]

lemma sem_cat_Opt_last:
  "sem (cat [Opt t]) pv p w post cs cs' \<longleftrightarrow> sem t pv p w post cs cs' \<or> (w = [] \<and> cs' = cs)"
  unfolding sem_cat_Cons sem_cat_Nil by auto

lemma markdownHeader_parts:
  assumes L: "sem markdownHeader pv p w post cs cs'"
  shows "(pv = None \<or> pv = Some nl) \<and> (\<exists>hs ws v tok r4. w = hs @ ws @ v @ tok @ r4
     \<and> list_all (in_class hash) hs \<and> 1 \<le> length hs \<and> length hs \<le> 3
     \<and> list_all (in_class space) ws \<and> 1 \<le> length ws \<and> (v = ''v'' \<or> v = []) \<and> vtoken_shape tok
     \<and> sem (cat [Opt (cat [Rep space 1 None, chr CHR ''('', Cap 2 isodate, chr CHR '')''])])
           (lastc (lastc (lastc (lastc pv hs) ws) v) tok)
           (p + length hs + length ws + length v + length tok) r4 post
           (cs[2 * 1 := int (p + length hs + length ws + length v),
               2 * 1 + 1 := int (p + length hs + length ws + length v + length tok)]) cs')"
proof -
  from L have bol: "pv = None \<or> pv = Some nl" and
    s1: "sem (cat [Rep hash 1 (Some 3), Rep space 1 None, Opt (chr CHR ''v''), Cap 1 vtoken,
      Opt (cat [Rep space 1 None, chr CHR ''('', Cap 2 isodate, chr CHR '')''])]) pv p w post cs cs'"
    unfolding markdownHeader_def hash_def[symmetric] sem_cat_Bol by blast+
  from sem_cat_Rep[THEN iffD1, OF s1] obtain hs r1 where
    1: "w = hs @ r1" "list_all (in_class hash) hs" "1 \<le> length hs" "length hs \<le> 3"
    "sem (cat [Rep space 1 None, Opt (chr CHR ''v''), Cap 1 vtoken,
      Opt (cat [Rep space 1 None, chr CHR ''('', Cap 2 isodate, chr CHR '')''])])
      (lastc pv hs) (p + length hs) r1 post cs cs'"
    by auto
  from sem_cat_Rep[THEN iffD1, OF 1(5)] obtain ws r2 where
    2: "r1 = ws @ r2" "list_all (in_class space) ws" "1 \<le> length ws"
    "sem (cat [Opt (chr CHR ''v''), Cap 1 vtoken,
      Opt (cat [Rep space 1 None, chr CHR ''('', Cap 2 isodate, chr CHR '')''])])
      (lastc (lastc pv hs) ws) (p + length hs + length ws) r2 post cs cs'"
    by auto
  from sem_cat_Optchr[THEN iffD1, OF 2(4)] obtain v r3 where
    3: "r2 = v @ r3" "v = ''v'' \<or> v = []"
    "sem (cat [Cap 1 vtoken,
      Opt (cat [Rep space 1 None, chr CHR ''('', Cap 2 isodate, chr CHR '')''])])
      (lastc (lastc (lastc pv hs) ws) v) (p + length hs + length ws + length v) r3 post cs cs'"
    by auto
  from sem_cat_Cap_vtoken[THEN iffD1, OF 3(3)] obtain tok r4 where
    4: "r3 = tok @ r4" "vtoken_shape tok"
    "sem (cat [Opt (cat [Rep space 1 None, chr CHR ''('', Cap 2 isodate, chr CHR '')''])])
       (lastc (lastc (lastc (lastc pv hs) ws) v) tok)
       (p + length hs + length ws + length v + length tok) r4 post
       (cs[2 * 1 := int (p + length hs + length ws + length v),
           2 * 1 + 1 := int (p + length hs + length ws + length v + length tok)]) cs'"
    by auto
  have "w = hs @ ws @ v @ tok @ r4" using 1(1) 2(1) 3(1) 4(1) by simp
  with bol 1 2 3 4 show ?thesis by blast
qed

lemma md_tail:
  assumes "sem (cat [Opt (cat [Rep space 1 None, chr CHR ''('', Cap 2 isodate, chr CHR '')''])])
     pv p t post cs cs'"
  shows "(t = [] \<and> cs' = cs) \<or> (\<exists>ws2 dt. t = ws2 @ ''('' @ dt @ '')''
     \<and> list_all (in_class space) ws2 \<and> 1 \<le> length ws2 \<and> isodate_shape dt
     \<and> cs' = cs[2 * 2 := int (Suc (p + length ws2)), 2 * 2 + 1 := int (Suc (p + length ws2) + length dt)])"
proof -
  from sem_cat_Opt_last[THEN iffD1, OF assms] show ?thesis
  proof
    assume "t = [] \<and> cs' = cs"
    then show ?thesis by blast
  next
    assume s: "sem (cat [Rep space 1 None, chr CHR ''('', Cap 2 isodate, chr CHR '')'']) pv p t post cs cs'"
    from sem_cat_Rep[THEN iffD1, OF s] obtain ws2 r1 where
      1: "t = ws2 @ r1" "list_all (in_class space) ws2" "1 \<le> length ws2"
      "sem (cat [chr CHR ''('', Cap 2 isodate, chr CHR '')'']) (lastc pv ws2) (p + length ws2) r1 post cs cs'"
      by auto
    from sem_cat_chr[THEN iffD1, OF 1(4)] obtain r2 where
      2: "r1 = CHR ''('' # r2"
      "sem (cat [Cap 2 isodate, chr CHR '')'']) (Some CHR ''('') (Suc (p + length ws2)) r2 post cs cs'"
      by auto
    from sem_cat_Cap_isodate[THEN iffD1, OF 2(2)] obtain dt r3 where
      3: "r2 = dt @ r3" "isodate_shape dt"
      "sem (cat [chr CHR '')'']) (lastc (Some CHR ''('') dt) (Suc (p + length ws2) + length dt) r3 post
         (cs[2 * 2 := int (Suc (p + length ws2)), 2 * 2 + 1 := int (Suc (p + length ws2) + length dt)]) cs'"
      by auto
    from sem_cat_chr[THEN iffD1, OF 3(3)] obtain r4 where
      4: "r3 = CHR '')'' # r4"
      "sem (cat []) (Some CHR '')'') (Suc (Suc (p + length ws2) + length dt)) r4 post
         (cs[2 * 2 := int (Suc (p + length ws2)), 2 * 2 + 1 := int (Suc (p + length ws2) + length dt)]) cs'"
      by auto
    from 4(2) have 5: "r4 = []"
      "cs' = cs[2 * 2 := int (Suc (p + length ws2)), 2 * 2 + 1 := int (Suc (p + length ws2) + length dt)]"
      by (simp_all add: sem_cat_Nil)
    have "t = ws2 @ ''('' @ dt @ '')''" using 1(1) 2(1) 3(1) 4(1) 5(1) by simp
    with 1 3 5 show ?thesis by blast
  qed
qed

lemma lastc_None_bol: "lastc None pre = None \<or> lastc None pre = Some nl \<longleftrightarrow> pre = [] \<or> last pre = nl"
  by (auto simp: lastc_def)

lemma md_caps_facts:
  assumes s: "sem markdownHeader pv p w post (replicate 6 (- 1)) cs'"
  shows "(pv = None \<or> pv = Some nl) \<and> (\<exists>hs ws v tok tail. w = hs @ ws @ v @ tok @ tail
     \<and> hs \<noteq> [] \<and> length hs \<le> 3 \<and> list_all (in_class hash) hs
     \<and> ws \<noteq> [] \<and> list_all (in_class space) ws
     \<and> (v = ''v'' \<or> v = []) \<and> vtoken_shape tok
     \<and> length cs' = 6
     \<and> cs' ! 2 = int (p + length hs + length ws + length v)
     \<and> cs' ! 3 = int (p + length hs + length ws + length v + length tok)
     \<and> ((tail = [] \<and> cs' ! 4 = - 1)
         \<or> (\<exists>ws2 dt. tail = ws2 @ ''('' @ dt @ '')'' \<and> ws2 \<noteq> [] \<and> list_all (in_class space) ws2
               \<and> isodate_shape dt
               \<and> cs' ! 4 = int (Suc (p + length hs + length ws + length v + length tok + length ws2))
               \<and> cs' ! 5 = int (Suc (p + length hs + length ws + length v + length tok + length ws2)
                    + length dt))))"
proof -
  from markdownHeader_parts[OF s] obtain hs ws v tok r4 where
    bol: "pv = None \<or> pv = Some nl" and
    w: "w = hs @ ws @ v @ tok @ r4" and
    hs: "list_all (in_class hash) hs" "1 \<le> length hs" "length hs \<le> 3" and
    ws: "list_all (in_class space) ws" "1 \<le> length ws" and
    v: "v = ''v'' \<or> v = []" and tok: "vtoken_shape tok" and
    tl: "sem (cat [Opt (cat [Rep space 1 None, chr CHR ''('', Cap 2 isodate, chr CHR '')''])])
           (lastc (lastc (lastc (lastc pv hs) ws) v) tok)
           (p + length hs + length ws + length v + length tok) r4 post
           ((replicate 6 (- 1))[2 * 1 := int (p + length hs + length ws + length v),
               2 * 1 + 1 := int (p + length hs + length ws + length v + length tok)]) cs'"
    by blast
  let ?a = "p + length hs + length ws + length v"
  let ?c1 = "(replicate 6 (- 1 :: int))[2 * 1 := int ?a, 2 * 1 + 1 := int (?a + length tok)]"
  have hs': "hs \<noteq> []" and ws': "ws \<noteq> []" using hs(2) ws(2) by auto
  have tailfacts: "length cs' = 6 \<and> cs' ! 2 = int ?a \<and> cs' ! 3 = int (?a + length tok)
     \<and> ((r4 = [] \<and> cs' ! 4 = - 1)
         \<or> (\<exists>ws2 dt. r4 = ws2 @ ''('' @ dt @ '')'' \<and> ws2 \<noteq> [] \<and> list_all (in_class space) ws2
               \<and> isodate_shape dt
               \<and> cs' ! 4 = int (Suc (?a + length tok + length ws2))
               \<and> cs' ! 5 = int (Suc (?a + length tok + length ws2) + length dt)))"
    using md_tail[OF tl]
  proof
    assume "r4 = [] \<and> cs' = ?c1"
    then show ?thesis by simp
  next
    assume "\<exists>ws2 dt. r4 = ws2 @ ''('' @ dt @ '')''
     \<and> list_all (in_class space) ws2 \<and> 1 \<le> length ws2 \<and> isodate_shape dt
     \<and> cs' = ?c1[2 * 2 := int (Suc (?a + length tok + length ws2)),
                 2 * 2 + 1 := int (Suc (?a + length tok + length ws2) + length dt)]"
    then obtain ws2 dt where t: "r4 = ws2 @ ''('' @ dt @ '')''"
      "list_all (in_class space) ws2" "1 \<le> length ws2" "isodate_shape dt"
      "cs' = ?c1[2 * 2 := int (Suc (?a + length tok + length ws2)),
                 2 * 2 + 1 := int (Suc (?a + length tok + length ws2) + length dt)]"
      by blast
    have "ws2 \<noteq> []" using t(3) by auto
    moreover have "length cs' = 6" "cs' ! 2 = int ?a" "cs' ! 3 = int (?a + length tok)"
      "cs' ! 4 = int (Suc (?a + length tok + length ws2))"
      "cs' ! 5 = int (Suc (?a + length tok + length ws2) + length dt)"
      unfolding t(5) by simp_all
    ultimately show ?thesis using t(1,2,4) by blast
  qed
  show ?thesis
    apply (rule conjI[OF bol])
    apply (rule exI[of _ hs], rule exI[of _ ws], rule exI[of _ v], rule exI[of _ tok], rule exI[of _ r4])
    using w hs' hs(1,3) ws' ws(1) v tok tailfacts apply blast
    done
qed

lemma slice_at:
  "c = x @ t @ y \<Longrightarrow> a = int (length x) \<Longrightarrow> b = int (length x + length t) \<Longrightarrow> slice c a b = t"
  by (simp add: slice_def)

lemma markdownHeader_match:
  assumes "m \<in> set (FindAllStringSubmatchIndex markdownHeader c)"
  shows "\<exists>pre hs ws v tok tail post. c = pre @ hs @ ws @ v @ tok @ tail @ post
     \<and> (pre = [] \<or> last pre = nl)
     \<and> hs \<noteq> [] \<and> length hs \<le> 3 \<and> list_all (in_class hash) hs
     \<and> ws \<noteq> [] \<and> list_all (in_class space) ws
     \<and> (v = ''v'' \<or> v = [])
     \<and> vtoken_shape tok \<and> group_text c m 1 = tok
     \<and> ((tail = [] \<and> m ! 4 = - 1)
         \<or> (\<exists>ws2 dt. tail = ws2 @ ''('' @ dt @ '')'' \<and> ws2 \<noteq> [] \<and> list_all (in_class space) ws2
               \<and> isodate_shape dt \<and> group_text c m 2 = dt))
     \<and> m ! 0 = int (length pre)
     \<and> m ! 1 = int (length (pre @ hs @ ws @ v @ tok @ tail))"
proof -
  from assms have "sem_match markdownHeader c m"
    unfolding FindAllStringSubmatchIndex_def by (rule allMatches_sem)
  then obtain pre w post cs' where c: "c = pre @ w @ post"
    and s: "sem markdownHeader (lastc None pre) (length pre) w post (replicate 6 (- 1)) cs'"
    and m: "m = cs'[0 := int (length pre), 1 := int (length pre + length w)]"
    unfolding sem_match_def ncap_builtin by auto
  let ?p = "length pre"
  from md_caps_facts[OF s] obtain hs ws v tok tail where
    bol: "lastc None pre = None \<or> lastc None pre = Some nl" and
    w: "w = hs @ ws @ v @ tok @ tail" and
    sh: "hs \<noteq> []" "length hs \<le> 3" "list_all (in_class hash) hs"
        "ws \<noteq> []" "list_all (in_class space) ws" "v = ''v'' \<or> v = []" "vtoken_shape tok" and
    len: "length cs' = 6" and
    c2: "cs' ! 2 = int (?p + length hs + length ws + length v)" and
    c3: "cs' ! 3 = int (?p + length hs + length ws + length v + length tok)" and
    tl: "(tail = [] \<and> cs' ! 4 = - 1)
         \<or> (\<exists>ws2 dt. tail = ws2 @ ''('' @ dt @ '')'' \<and> ws2 \<noteq> [] \<and> list_all (in_class space) ws2
               \<and> isodate_shape dt
               \<and> cs' ! 4 = int (Suc (?p + length hs + length ws + length v + length tok + length ws2))
               \<and> cs' ! 5 = int (Suc (?p + length hs + length ws + length v + length tok + length ws2)
                    + length dt))"
    by blast
  have pre: "pre = [] \<or> last pre = nl" using bol unfolding lastc_None_bol .
  have mk: "\<And>k. 2 \<le> k \<Longrightarrow> m ! k = cs' ! k" unfolding m using len by simp
  have m0: "m ! 0 = int ?p" unfolding m using len by simp
  have m1: "m ! 1 = int (length (pre @ hs @ ws @ v @ tok @ tail))" unfolding m w using len by simp
  have cc: "c = pre @ hs @ ws @ v @ tok @ tail @ post" using c w by simp
  have g1: "group_text c m 1 = tok"
  proof -
    have "slice c (m ! 2) (m ! 3) = tok"
    proof (rule slice_at)
      show "c = (pre @ hs @ ws @ v) @ tok @ (tail @ post)" using cc by simp
      show "m ! 2 = int (length (pre @ hs @ ws @ v))" using mk[of 2] c2 by simp
      show "m ! 3 = int (length (pre @ hs @ ws @ v) + length tok)" using mk[of 3] c3 by simp
    qed
    moreover have "\<not> m ! 2 < 0" using mk[of 2] c2 by simp
    ultimately show ?thesis by (simp add: group_text_def)
  qed
  have g2: "(tail = [] \<and> m ! 4 = - 1)
         \<or> (\<exists>ws2 dt. tail = ws2 @ ''('' @ dt @ '')'' \<and> ws2 \<noteq> [] \<and> list_all (in_class space) ws2
               \<and> isodate_shape dt \<and> group_text c m 2 = dt)"
    using tl
  proof
    assume "tail = [] \<and> cs' ! 4 = - 1"
    then show ?thesis using mk[of 4] by simp
  next
    assume "\<exists>ws2 dt. tail = ws2 @ ''('' @ dt @ '')'' \<and> ws2 \<noteq> [] \<and> list_all (in_class space) ws2
               \<and> isodate_shape dt
               \<and> cs' ! 4 = int (Suc (?p + length hs + length ws + length v + length tok + length ws2))
               \<and> cs' ! 5 = int (Suc (?p + length hs + length ws + length v + length tok + length ws2)
                    + length dt)"
    then obtain ws2 dt where t: "tail = ws2 @ ''('' @ dt @ '')''" "ws2 \<noteq> []"
      "list_all (in_class space) ws2" "isodate_shape dt"
      "cs' ! 4 = int (Suc (?p + length hs + length ws + length v + length tok + length ws2))"
      "cs' ! 5 = int (Suc (?p + length hs + length ws + length v + length tok + length ws2)
                    + length dt)" by blast
    have "slice c (m ! 4) (m ! 5) = dt"
    proof (rule slice_at)
      show "c = (pre @ hs @ ws @ v @ tok @ ws2 @ ''('') @ dt @ ('')'' @ post)" using cc t(1) by simp
      show "m ! 4 = int (length (pre @ hs @ ws @ v @ tok @ ws2 @ ''(''))" using mk[of 4] t(5) by simp
      show "m ! 5 = int (length (pre @ hs @ ws @ v @ tok @ ws2 @ ''('') + length dt)"
        using mk[of 5] t(6) by simp
    qed
    moreover have "\<not> m ! 4 < 0" using mk[of 4] t(5) by simp
    ultimately have "group_text c m 2 = dt" by (simp add: group_text_def)
    with t show ?thesis by blast
  qed
  show ?thesis
    apply (rule exI[of _ pre], rule exI[of _ hs], rule exI[of _ ws], rule exI[of _ v],
           rule exI[of _ tok], rule exI[of _ tail], rule exI[of _ post])
    using cc pre sh g1 g2 m0 m1 apply blast
    done
qed

lemma underlineHeader_match:
  assumes "m \<in> set (FindAllStringSubmatchIndex underlineHeader c)"
  shows "vtoken_shape (group_text c m 1)"
proof -
  let ?ul = "Rep (Class False [(CHR ''='', CHR ''=''), (CHR ''-'', CHR ''-'')]) 1 None"
  from assms have "sem_match underlineHeader c m"
    unfolding FindAllStringSubmatchIndex_def by (rule allMatches_sem)
  then obtain pre w post cs' where c: "c = pre @ w @ post"
    and s: "sem underlineHeader (lastc None pre) (length pre) w post (replicate 4 (- 1)) cs'"
    and m: "m = cs'[0 := int (length pre), 1 := int (length pre + length w)]"
    unfolding sem_match_def ncap_builtin by auto
  from s have s1: "sem (cat [Cap 1 vtoken, chr nl, ?ul]) (lastc None pre) (length pre) w post
      (replicate 4 (- 1)) cs'"
    unfolding underlineHeader_def sem_cat_Bol by blast
  from sem_cat_Cap_vtoken[THEN iffD1, OF s1] obtain tok r1 where
    1: "w = tok @ r1" "vtoken_shape tok"
    "sem (cat [chr nl, ?ul]) (lastc (lastc None pre) tok) (length pre + length tok) r1 post
       ((replicate 4 (- 1))[2 * 1 := int (length pre), 2 * 1 + 1 := int (length pre + length tok)]) cs'"
    by auto
  have "caps_of (cat [chr nl, ?ul]) = {}" by (simp add: caps_of_cat chr_def)
  with sem_frame[OF 1(3)] have cs':
    "cs' = (replicate 4 (- 1))[2 * 1 := int (length pre), 2 * 1 + 1 := int (length pre + length tok)]"
    by (intro nth_equalityI) auto
  have m2: "m ! 2 = int (length pre)" "m ! 3 = int (length pre + length tok)"
    unfolding m cs' by simp_all
  have "slice c (m ! 2) (m ! 3) = tok"
  proof (rule slice_at)
    show "c = pre @ tok @ (r1 @ post)" using c 1(1) by simp
  qed (use m2 in simp_all)
  then have "group_text c m 1 = tok" using m2 by (simp add: group_text_def)
  with 1(2) show ?thesis by simp
qed

lemma in_class_notrbracket: "in_class notrbracket x \<longleftrightarrow> x \<noteq> CHR '']''"
  by (auto simp: notrbracket_def)

lemma keepAChangelog_peel:
  assumes "sem keepAChangelog pv p w post cs cs'"
  shows "(pv = None \<or> pv = Some nl) \<and> (\<exists>ws g tail. w = ''##'' @ ws @ ''['' @ g @ '']'' @ tail
     \<and> list_all (in_class space) ws \<and> 1 \<le> length ws
     \<and> list_all (in_class notrbracket) g \<and> 1 \<le> length g
     \<and> sem (cat [Opt (cat [Rep space 1 None, chr CHR ''-'', Rep space 1 None, Cap 2 isodate])])
          (Some CHR '']'') (Suc (Suc (Suc (Suc p) + length ws) + length g)) tail post
          (cs[2 * 1 := int (Suc (Suc (Suc p) + length ws)),
              2 * 1 + 1 := int (Suc (Suc (Suc p) + length ws) + length g)]) cs')"
proof -
  let ?tailre = "cat [Rep space 1 None, chr CHR ''-'', Rep space 1 None, Cap 2 isodate]"
  from assms have bol: "pv = None \<or> pv = Some nl" and
    s1: "sem (cat [chr CHR ''#'', chr CHR ''#'', Rep space 1 None, chr CHR ''['',
       Cap 1 (Rep notrbracket 1 None), chr CHR '']'', Opt ?tailre]) pv p w post cs cs'"
    unfolding keepAChangelog_def sem_cat_Bol by blast+
  from sem_cat_chr[THEN iffD1, OF s1] obtain r1 where
    1: "w = CHR ''#'' # r1"
    "sem (cat [chr CHR ''#'', Rep space 1 None, chr CHR ''['',
       Cap 1 (Rep notrbracket 1 None), chr CHR '']'', Opt ?tailre]) (Some CHR ''#'') (Suc p) r1 post cs cs'"
    by auto
  from sem_cat_chr[THEN iffD1, OF 1(2)] obtain r2 where
    2: "r1 = CHR ''#'' # r2"
    "sem (cat [Rep space 1 None, chr CHR ''['',
       Cap 1 (Rep notrbracket 1 None), chr CHR '']'', Opt ?tailre]) (Some CHR ''#'') (Suc (Suc p)) r2 post cs cs'"
    by auto
  from sem_cat_Rep[THEN iffD1, OF 2(2)] obtain ws r3 where
    3: "r2 = ws @ r3" "list_all (in_class space) ws" "1 \<le> length ws"
    "sem (cat [chr CHR ''['', Cap 1 (Rep notrbracket 1 None), chr CHR '']'', Opt ?tailre])
       (lastc (Some CHR ''#'') ws) (Suc (Suc p) + length ws) r3 post cs cs'"
    by auto
  from sem_cat_chr[THEN iffD1, OF 3(4)] obtain r4 where
    4: "r3 = CHR ''['' # r4"
    "sem (cat [Cap 1 (Rep notrbracket 1 None), chr CHR '']'', Opt ?tailre])
       (Some CHR ''['') (Suc (Suc (Suc p) + length ws)) r4 post cs cs'"
    by auto
  let ?a = "Suc (Suc (Suc p) + length ws)"
  from sem_cat_Cap_Rep[THEN iffD1, OF 4(2)] obtain g r5 where
    5: "r4 = g @ r5" "list_all (in_class notrbracket) g" "1 \<le> length g"
    "sem (cat [chr CHR '']'', Opt ?tailre]) (lastc (Some CHR ''['') g) (?a + length g) r5 post
       (cs[2 * 1 := int ?a, 2 * 1 + 1 := int (?a + length g)]) cs'"
    by auto
  let ?c1 = "cs[2 * 1 := int ?a, 2 * 1 + 1 := int (?a + length g)]"
  from sem_cat_chr[THEN iffD1, OF 5(4)] obtain tail where
    6: "r5 = CHR '']'' # tail"
    "sem (cat [Opt ?tailre]) (Some CHR '']'') (Suc (?a + length g)) tail post ?c1 cs'"
    by auto
  have w: "w = ''##'' @ ws @ ''['' @ g @ '']'' @ tail" using 1(1) 2(1) 3(1) 4(1) 5(1) 6(1) by simp
  show ?thesis
    apply (rule conjI[OF bol])
    apply (rule exI[of _ ws], rule exI[of _ g], rule exI[of _ tail])
    using w 3(2,3) 5(2,3) 6(2) apply blast
    done
qed

lemma caps_of_keep_tail:
  "caps_of (cat [Opt (cat [Rep space 1 None, chr CHR ''-'', Rep space 1 None, Cap 2 isodate])]) = {2}"
  by (simp add: caps_of_cat chr_def isodate_def)

lemma keep_tail_frame:
  assumes "sem (cat [Opt (cat [Rep space 1 None, chr CHR ''-'', Rep space 1 None, Cap 2 isodate])])
     pv p tail post cs cs'"
  shows "length cs' = length cs \<and> cs' ! 2 = cs ! 2 \<and> cs' ! 3 = cs ! 3 \<and> (tail = [] \<longrightarrow> cs' = cs)"
proof -
  from sem_frame[OF assms] have "length cs' = length cs"
    and fr: "\<And>i. (\<forall>n \<in> {2::nat}. i \<noteq> 2 * n \<and> i \<noteq> 2 * n + 1) \<Longrightarrow> cs' ! i = cs ! i"
    unfolding caps_of_keep_tail by blast+
  moreover have "cs' ! 2 = cs ! 2" by (rule fr) simp
  moreover have "cs' ! 3 = cs ! 3" by (rule fr) simp
  moreover have "cs' = cs" if "tail = []"
  proof -
    from sem_cat_Opt_last[THEN iffD1, OF assms] show ?thesis
    proof
      assume "tail = [] \<and> cs' = cs"
      then show ?thesis by simp
    next
      assume "sem (cat [Rep space 1 None, chr CHR ''-'', Rep space 1 None, Cap 2 isodate])
        pv p tail post cs cs'"
      from sem_cat_Rep[THEN iffD1, OF this] obtain ws2 r where "tail = ws2 @ r" "1 \<le> length ws2"
        by auto
      with that show ?thesis by auto
    qed
  qed
  ultimately show ?thesis by blast
qed

lemma in_class_space_blank: "in_class space CHR '' ''" "\<not> in_class space CHR ''[''"
  by (simp_all add: space_def byte_def)

lemma append_sep_unique:
  assumes "a @ x # b = c @ x # d" "x \<notin> set a" "x \<notin> set c"
  shows "a = c \<and> b = d"
proof -
  have "takeWhile (\<lambda>y. y \<noteq> x) (a @ x # b) = a" using assms(2) by (auto simp: takeWhile_tail)
  moreover have "takeWhile (\<lambda>y. y \<noteq> x) (c @ x # d) = c" using assms(3) by (auto simp: takeWhile_tail)
  ultimately have "a = c" using assms(1) by simp
  with assms(1) show ?thesis by simp
qed

lemma keep_unique:
  assumes s: "sem keepAChangelog pv p w post (replicate 6 (- 1)) cs'"
    and d: "CHR ''#'' # CHR ''#'' # CHR '' '' # CHR ''['' # t @ [CHR '']''] = w @ r'"
    and t: "CHR '']'' \<notin> set t"
  shows "r' = [] \<and> cs' = (replicate 6 (- 1))[2 := int (p + 4), 3 := int (p + 4 + length t)]"
proof -
  from keepAChangelog_peel[OF s] obtain ws g tail where
    w: "w = ''##'' @ ws @ ''['' @ g @ '']'' @ tail" and
    ws: "list_all (in_class space) ws" "1 \<le> length ws" and
    g: "list_all (in_class notrbracket) g" "1 \<le> length g" and
    tl: "sem (cat [Opt (cat [Rep space 1 None, chr CHR ''-'', Rep space 1 None, Cap 2 isodate])])
          (Some CHR '']'') (Suc (Suc (Suc (Suc p) + length ws) + length g)) tail post
          ((replicate 6 (- 1))[2 * 1 := int (Suc (Suc (Suc p) + length ws)),
              2 * 1 + 1 := int (Suc (Suc (Suc p) + length ws) + length g)]) cs'"
    by blast
  from d w have e1: "CHR '' '' # CHR ''['' # t @ [CHR '']''] = ws @ CHR ''['' # g @ CHR '']'' # tail @ r'"
    by simp
  from ws obtain x ws' where wsx: "ws = x # ws'" by (cases ws) auto
  have "ws' = []"
  proof (rule ccontr)
    assume "ws' \<noteq> []"
    then obtain y ws'' where "ws' = y # ws''" by (cases ws') auto
    with e1 wsx have "y = CHR ''[''" by simp
    moreover have "in_class space y" using ws(1) wsx \<open>ws' = y # ws''\<close> by simp
    ultimately show False using in_class_space_blank(2) by simp
  qed
  with e1 wsx have ws1: "ws = [CHR '' '']" and e2: "t @ CHR '']'' # [] = g @ CHR '']'' # tail @ r'"
    by simp_all
  have "CHR '']'' \<notin> set g" using g(1) by (auto simp: list_all_iff in_class_notrbracket)
  from append_sep_unique[OF e2 t this] have gt: "g = t" and e3: "tail @ r' = []" by simp_all
  then have tr: "tail = []" "r' = []" by simp_all
  from keep_tail_frame[OF tl] tr(1) have
    "cs' = (replicate 6 (- 1))[2 * 1 := int (Suc (Suc (Suc p) + length ws)),
              2 * 1 + 1 := int (Suc (Suc (Suc p) + length ws) + length g)]" by blast
  then have "cs' = (replicate 6 (- 1))[2 := int (p + 4), 3 := int (p + 4 + length t)]"
    unfolding ws1 gt by (simp add: algebra_simps numeral_2_eq_2 numeral_3_eq_3)
  with tr show ?thesis by simp
qed

lemma keep_exists:
  assumes "t \<noteq> []" "CHR '']'' \<notin> set t"
  shows "sem keepAChangelog None 0 (CHR ''#'' # CHR ''#'' # CHR '' '' # CHR ''['' # t @ [CHR '']'']) []
     (replicate 6 (- 1))
     ((replicate 6 (- 1))[2 * 1 := int (Suc (Suc (Suc 0) + length [CHR '' ''])),
        2 * 1 + 1 := int (Suc (Suc (Suc 0) + length [CHR '' '']) + length t)])"
proof -
  have nb: "list_all (in_class notrbracket) t"
    using assms(2) by (auto simp: list_all_iff in_class_notrbracket)
  have len: "1 \<le> length t" using assms(1) by (cases t) auto
  show ?thesis
    unfolding keepAChangelog_def
    apply (rule sem_cat_Bol[THEN iffD2], rule conjI, simp)
    apply (rule sem_cat_chr[THEN iffD2], rule exI, rule conjI, rule refl)
    apply (rule sem_cat_chr[THEN iffD2], rule exI, rule conjI, rule refl)
    apply (rule sem_cat_Rep[THEN iffD2])
    apply (rule exI[of _ "[CHR '' '']"], rule exI[of _ "CHR ''['' # t @ [CHR '']'']"])
    apply (intro conjI)
        apply simp
       apply (simp add: in_class_space_blank)
      apply simp
     apply simp
    apply (rule sem_cat_chr[THEN iffD2], rule exI, rule conjI, rule refl)
    apply (rule sem_cat_Cap_Rep[THEN iffD2])
    apply (rule exI[of _ t], rule exI[of _ "[CHR '']'']"])
    apply (intro conjI)
        apply simp
       apply (rule nb)
      apply (rule len)
     apply simp
    apply (rule sem_cat_chr[THEN iffD2], rule exI, rule conjI, rule refl)
    apply (rule sem_cat_Opt_last[THEN iffD2], rule disjI2)
    apply simp
    done
qed

lemma keep_no_empty_match: "run keepAChangelog ((p, pv, []), cs) = []"
proof (rule ccontr)
  assume "run keepAChangelog ((p, pv, []), cs) \<noteq> []"
  then obtain st where st: "st \<in> set (run keepAChangelog ((p, pv, []), cs))"
    by (cases "run keepAChangelog ((p, pv, []), cs)") auto
  obtain p' pv' r' cs' where "st = ((p', pv', r'), cs')" by (metis prod.exhaust)
  with st have "((p', pv', r'), cs') \<in> set (run keepAChangelog ((p, pv, []), cs))" by simp
  then obtain w where w: "[] = w @ r'" "sem keepAChangelog pv p w r' cs cs'"
    unfolding run_sem by blast
  from w(1) have "w = []" by simp
  moreover from keepAChangelog_peel[OF w(2)] have "w \<noteq> []" by auto
  ultimately show False by simp
qed

lemma keep_bracketed:
  assumes "t \<noteq> []" "CHR '']'' \<notin> set t"
  shows "FindAllStringSubmatchIndex keepAChangelog (''## ['' @ t @ '']'')
     = [[0, int (length t + 5), 4, int (length t + 4), - 1, - 1]]"
proof -
  let ?doc = "CHR ''#'' # CHR ''#'' # CHR '' '' # CHR ''['' # t @ [CHR '']'']"
  let ?init = "replicate 6 (- 1 :: int)"
  let ?m = "[0, int (length t + 5), 4, int (length t + 4), - 1, - 1]"
  have init: "?init = [- 1, - 1, - 1, - 1, - 1, - 1]" by (simp add: eval_nat_numeral)
  have len: "length ?doc = length t + 5" by simp
  have ex: "((0 + length ?doc, lastc None ?doc, []), ?init[2 * 1 := int (Suc (Suc (Suc 0) + length [CHR '' ''])),
        2 * 1 + 1 := int (Suc (Suc (Suc 0) + length [CHR '' '']) + length t)])
      \<in> set (run keepAChangelog ((0, None, ?doc), ?init))"
    unfolding run_sem using keep_exists[OF assms] by (intro exI[of _ ?doc]) simp
  then obtain st sts where run: "run keepAChangelog ((0, None, ?doc), ?init) = st # sts"
    by (cases "run keepAChangelog ((0, None, ?doc), ?init)") auto
  obtain p' pv' r' cs' where st: "st = ((p', pv', r'), cs')" by (metis prod.exhaust)
  have "((p', pv', r'), cs') \<in> set (run keepAChangelog ((0, None, ?doc), ?init))"
    using run st by simp
  then obtain w where w: "?doc = w @ r'" "p' = 0 + length w"
    "sem keepAChangelog None 0 w r' ?init cs'"
    unfolding run_sem by blast
  from keep_unique[OF w(3) w(1) assms(2)] have r': "r' = []"
    and cs': "cs' = ?init[2 := int (0 + 4), 3 := int (0 + 4 + length t)]" by simp_all
  from w(1) r' have "w = ?doc" by simp
  with w(2) have p': "p' = length t + 5" by simp
  have six: "2 * (2 + 1) = (6::nat)" by simp
  have "execute keepAChangelog 2 0 None ?doc = Some (cs'[0 := int 0, 1 := int p'])"
    by (subst execute.simps) (simp only: six run st list.case prod.case)
  also have "cs'[0 := int 0, 1 := int p'] = ?m"
    unfolding cs' p' init by (simp add: eval_nat_numeral algebra_simps)
  finally have e0: "doExecute keepAChangelog ?doc 0 = Some ?m"
    by (simp add: doExecute_def ncap_builtin del: execute.simps)
  have e1: "doExecute keepAChangelog ?doc (length t + 5) = None"
    unfolding doExecute_def ncap_builtin
    by (simp add: execute_None_iff keep_no_empty_match del: execute.simps)
  have a1: "allMatches keepAChangelog ?doc (length t + 5) (int (length t + 5)) = []"
    using e1 by (subst allMatches.simps) simp
  have "allMatches keepAChangelog ?doc 0 (- 1) = [?m]"
    using e0 a1 by (subst allMatches.simps) (simp add: nat_add_distrib)
  then show ?thesis by (simp add: FindAllStringSubmatchIndex_def)
qed



lemma after_first_dot_10: "after_first_dot ''1.0'' = ''0''"
  by (simp add: after_first_dot_def)

text \<open>
  Claim C6. In every match of the markdown-header pattern and of the underline pattern
  the version token has a dot and at least two characters after its first dot, so that
  \<open>1.0\<close> is never the token of a match and the headers \<open>## 1.0\<close> and \<open>1.0\<close> over an
  underline are not matched at all. The Keep-a-Changelog pattern has no such bound: for
  every token that is not empty and has no \<open>]\<close>, the header \<open>## [token]\<close> is matched
  with that token, \<open>## [1.0]\<close> for one.
\<close>

theorem token_min_length:
  "(\<forall>m \<in> set (FindAllStringSubmatchIndex markdownHeader c).
      CHR ''.'' \<in> set (group_text c m 1) \<and> 2 \<le> length (after_first_dot (group_text c m 1))
      \<and> group_text c m 1 \<noteq> ''1.0'')
   \<and> (\<forall>m \<in> set (FindAllStringSubmatchIndex underlineHeader c).
      CHR ''.'' \<in> set (group_text c m 1) \<and> 2 \<le> length (after_first_dot (group_text c m 1))
      \<and> group_text c m 1 \<noteq> ''1.0'')
   \<and> FindAllStringSubmatchIndex markdownHeader ''## 1.0'' = []
   \<and> FindAllStringSubmatchIndex underlineHeader ''1.0\<newline>==='' = []
   \<and> (t \<noteq> [] \<and> CHR '']'' \<notin> set t \<longrightarrow>
        map (\<lambda>m. group_text (''## ['' @ t @ '']'') m 1)
          (FindAllStringSubmatchIndex keepAChangelog (''## ['' @ t @ '']'')) = [t])
   \<and> map (\<lambda>m. group_text ''## [1.0]'' m 1)
         (FindAllStringSubmatchIndex keepAChangelog ''## [1.0]'') = [''1.0'']"
proof (intro conjI ballI impI)
  fix m assume "m \<in> set (FindAllStringSubmatchIndex markdownHeader c)"
  from markdownHeader_match[OF this] obtain tok where "vtoken_shape tok" "group_text c m 1 = tok"
    by blast
  then have v: "vtoken_shape (group_text c m 1)" by simp
  from vtoken_shape_dot[OF v]
  show "CHR ''.'' \<in> set (group_text c m 1)" "2 \<le> length (after_first_dot (group_text c m 1))"
    by simp_all
  then show "group_text c m 1 \<noteq> ''1.0''" using after_first_dot_10 by auto
next
  fix m assume "m \<in> set (FindAllStringSubmatchIndex underlineHeader c)"
  from underlineHeader_match[OF this] have v: "vtoken_shape (group_text c m 1)" .
  from vtoken_shape_dot[OF v]
  show "CHR ''.'' \<in> set (group_text c m 1)" "2 \<le> length (after_first_dot (group_text c m 1))"
    by simp_all
  then show "group_text c m 1 \<noteq> ''1.0''" using after_first_dot_10 by auto
next
  show "FindAllStringSubmatchIndex markdownHeader ''## 1.0'' = []" by code_simp
  show "FindAllStringSubmatchIndex underlineHeader ''1.0\<newline>==='' = []" by code_simp
  show "map (\<lambda>m. group_text ''## [1.0]'' m 1)
         (FindAllStringSubmatchIndex keepAChangelog ''## [1.0]'') = [''1.0'']" by code_simp
next
  assume t: "t \<noteq> [] \<and> CHR '']'' \<notin> set t"
  then have f: "FindAllStringSubmatchIndex keepAChangelog (''## ['' @ t @ '']'')
     = [[0, int (length t + 5), 4, int (length t + 4), - 1, - 1]]"
    by (intro keep_bracketed) simp_all
  have "slice (''## ['' @ t @ '']'') 4 (int (length t + 4)) = t"
    by (rule slice_at[of _ "''## [''" t "'']''"]) simp_all
  then show "map (\<lambda>m. group_text (''## ['' @ t @ '']'') m 1)
          (FindAllStringSubmatchIndex keepAChangelog (''## ['' @ t @ '']'')) = [t]"
    unfolding f by (simp add: group_text_def)
qed

theorem token_min_length_witness:
  "[0, 8, 3, 8, - 1, - 1] \<in> set (FindAllStringSubmatchIndex markdownHeader ''## 1.0.0'')
   \<and> group_text ''## 1.0.0'' [0, 8, 3, 8, - 1, - 1] 1 = ''1.0.0''
   \<and> 2 \<le> length (after_first_dot (group_text ''## 1.0.0'' [0, 8, 3, 8, - 1, - 1] 1))
   \<and> [0, 11, 0, 5] \<in> set (FindAllStringSubmatchIndex underlineHeader ''1.0.0\<newline>====='')
   \<and> 2 \<le> length (after_first_dot (group_text ''1.0.0\<newline>====='' [0, 11, 0, 5] 1))
   \<and> map (\<lambda>m. group_text (''## ['' @ ''1'' @ '']'') m 1)
          (FindAllStringSubmatchIndex keepAChangelog (''## ['' @ ''1'' @ '']'')) = [''1'']"
proof -
  have a: "[0, 8, 3, 8, - 1, - 1] \<in> set (FindAllStringSubmatchIndex markdownHeader ''## 1.0.0'')"
    by code_simp
  have b: "group_text ''## 1.0.0'' [0, 8, 3, 8, - 1, - 1] 1 = ''1.0.0''" by code_simp
  have c: "[0, 11, 0, 5] \<in> set (FindAllStringSubmatchIndex underlineHeader ''1.0.0\<newline>====='')"
    by code_simp
  have d: "''1'' \<noteq> [] \<and> CHR '']'' \<notin> set ''1''" by simp
  from token_min_length[of "''## 1.0.0''" "''1''"] token_min_length[of "''1.0.0\<newline>=====''" "''1''"] a b c d
  show ?thesis by blast
qed




end
